theory Spec2Isabelle
  imports Main "HOL-Library.Word"
begin

section \<open>Standard streams\<close>

text \<open>
  The filters read standard input with \<^verbatim>\<open>fread(buf, 1, CHUNK, stdin)\<close> and write standard
  output with \<^verbatim>\<open>fwrite\<close>. The input stream is the sequence of deliveries the operating
  system will make (a piece of bytes, or a read error); its end is the end of the file.
  \<^verbatim>\<open>fread\<close> keeps asking until it has the requested count, meets the end of the file or an
  error, as the C standard says; it sets the end-of-file or the error indicator then.
\<close>

type_synonym byte = "8 word"

definition CHUNK :: nat where
  "CHUNK = 16384"

datatype delivery = Bytes "byte list" | IOError

record istream =
  pending :: "delivery list"
  feof :: bool
  ferror :: bool

text \<open>
  \<open>gather ds n\<close> collects up to \<open>n\<close> bytes from the deliveries \<open>ds\<close>: the bytes, the
  deliveries left, whether the end of the file was met, whether an error was met.
  A delivery larger than what is still asked for is split; an empty delivery carries
  no byte and is passed over.
\<close>

primrec gather :: "delivery list \<Rightarrow> nat \<Rightarrow> byte list \<times> delivery list \<times> bool \<times> bool" where
  "gather [] n = ([], [], 0 < n, False)"
| "gather (d # ds) n =
     (if n = 0 then ([], d # ds, False, False)
      else case d of
        IOError \<Rightarrow> ([], ds, False, True)
      | Bytes b \<Rightarrow>
          if length b \<le> n
          then (case gather ds (n - length b) of (bs, r, e, x) \<Rightarrow> (b @ bs, r, e, x))
          else (take n b, Bytes (drop n b) # ds, False, False))"

definition fread :: "nat \<Rightarrow> istream \<Rightarrow> byte list \<times> istream" where
  "fread n f =
     (if feof f then ([], f)
      else case gather (pending f) n of
        (bs, r, e, x) \<Rightarrow> (bs, \<lparr>pending = r, feof = e, ferror = ferror f \<or> x\<rparr>))"

text \<open>
  The output stream as a driver sees it through \<^verbatim>\<open>fwrite\<close> and \<^verbatim>\<open>ferror\<close>: it accepts
  bytes until its room, if it has a bound, is used up; a write that does not fit is
  short and sets the error indicator. \<open>written\<close> holds the bytes the stream has
  accepted, in order. The C library buffers \<^verbatim>\<open>stdout\<close> and the drivers neither flush nor
  close it, so \<open>room\<close> is what the stream accepts before one of its writes comes short,
  not the room of the file behind it, and accepted bytes can still be in the library's
  buffer when \<^verbatim>\<open>main\<close> returns; what becomes of them then is not part of this model.
\<close>

record ostream =
  written :: "byte list"
  room :: "nat option"
  oerror :: bool

definition fwrite :: "byte list \<Rightarrow> ostream \<Rightarrow> nat \<times> ostream" where
  "fwrite bs f =
     (case room f of
        None \<Rightarrow> (length bs, f\<lparr>written := written f @ bs\<rparr>)
      | Some k \<Rightarrow>
          if length bs \<le> k
          then (length bs, f\<lparr>written := written f @ bs, room := Some (k - length bs)\<rparr>)
          else (k, f\<lparr>written := written f @ take k bs, room := Some 0, oerror := True\<rparr>))"

definition stdin_of :: "delivery list \<Rightarrow> istream" where
  "stdin_of ds = \<lparr>pending = ds, feof = False, ferror = False\<rparr>"

definition stdout_with :: "nat option \<Rightarrow> ostream" where
  "stdout_with k = \<lparr>written = [], room = k, oerror = False\<rparr>"

section \<open>Codec libraries\<close>

text \<open>
  The codec engines (liblzma, zlib, libzstd, xz-embedded) are not part of the repository:
  each is a parameter of the driver that uses it. An engine call sees the unconsumed
  input window and the free room of the output buffer, and answers with its new state,
  the count of input bytes it consumed, the bytes it produced and its return value.
  The C engine cannot move its cursors outside the window it was given, so an answer
  outside the window is cut to it (\<open>within\<close>).
\<close>

datatype lzma_action = LZMA_RUN | LZMA_FINISH

datatype lzma_ret =
    LZMA_OK | LZMA_STREAM_END | LZMA_NO_CHECK | LZMA_UNSUPPORTED_CHECK | LZMA_GET_CHECK
  | LZMA_MEM_ERROR | LZMA_MEMLIMIT_ERROR | LZMA_FORMAT_ERROR | LZMA_OPTIONS_ERROR
  | LZMA_DATA_ERROR | LZMA_BUF_ERROR | LZMA_PROG_ERROR

datatype xz_ret =
    XZ_OK | XZ_STREAM_END | XZ_UNSUPPORTED_CHECK | XZ_MEM_ERROR | XZ_MEMLIMIT_ERROR
  | XZ_FORMAT_ERROR | XZ_OPTIONS_ERROR | XZ_DATA_ERROR | XZ_BUF_ERROR

text \<open>
  The \<^verbatim>\<open>size_t\<close> that \<^verbatim>\<open>ZSTD_decompressStream\<close> returns, read the way the driver reads it:
  an error code (\<^verbatim>\<open>ZSTD_isError\<close>), or the count of bytes still expected, 0 when a frame
  is completely decoded and flushed.
\<close>

datatype zstd_ret = ZSTD_error nat | ZSTD_hint nat

definition ZSTD_isError :: "zstd_ret \<Rightarrow> bool" where
  "ZSTD_isError r = (case r of ZSTD_error _ \<Rightarrow> True | ZSTD_hint _ \<Rightarrow> False)"

definition Z_OK :: int where "Z_OK = 0"
definition Z_STREAM_END :: int where "Z_STREAM_END = 1"
definition Z_STREAM_ERROR :: int where "Z_STREAM_ERROR = - 2"
definition Z_DATA_ERROR :: int where "Z_DATA_ERROR = - 3"
definition Z_MEM_ERROR :: int where "Z_MEM_ERROR = - 4"
definition Z_BUF_ERROR :: int where "Z_BUF_ERROR = - 5"

definition within :: "byte list \<Rightarrow> nat \<Rightarrow> 'e \<times> nat \<times> byte list \<times> 'r \<Rightarrow> 'e \<times> nat \<times> byte list \<times> 'r" where
  "within w n a = (case a of (e, c, p, r) \<Rightarrow> (e, min c (length w), take n p, r))"

record 'e lzma_lib =
  lzma_easy_encoder :: "32 word \<Rightarrow> lzma_ret \<times> 'e"
  lzma_stream_decoder :: "lzma_ret \<times> 'e"
  lzma_code :: "'e \<Rightarrow> lzma_action \<Rightarrow> byte list \<Rightarrow> nat \<Rightarrow> 'e \<times> nat \<times> byte list \<times> lzma_ret"

record 'e zlib =
  inflateInit2 :: "int \<times> 'e"
  inflate :: "'e \<Rightarrow> byte list \<Rightarrow> nat \<Rightarrow> 'e \<times> nat \<times> byte list \<times> int"

record 'e zstd_lib =
  ZSTD_createDCtx :: "'e option"
  ZSTD_decompressStream :: "'e \<Rightarrow> byte list \<Rightarrow> nat \<Rightarrow> 'e \<times> nat \<times> byte list \<times> zstd_ret"

record 'e xz_embedded =
  xz_dec_init :: "'e option"
  xz_dec_run :: "'e \<Rightarrow> byte list \<Rightarrow> nat \<Rightarrow> 'e \<times> nat \<times> byte list \<times> xz_ret"

section \<open>Processes\<close>

text \<open>
  What a filter process shows to the outside: its three streams and, once it has
  returned from \<^verbatim>\<open>main\<close>, its exit status. The messages on the error stream are kept
  by kind.
\<close>

datatype diag =
    Usage | Version_info
  | Level_out_of_range
  | Unknown_option string | Use_h_for_help
  | Compression_level int bool
  | Decompression
  | Init_error
  | Read_error
  | Write_error
  | Lzma_error lzma_ret
  | Mode_error bool
  | Zlib_error int
  | Zstd_error zstd_ret
  | Xz_error xz_ret

record proc =
  stdin :: istream
  stdout :: ostream
  stderr :: "diag list"
  exit_status :: "int option"

definition return_with :: "int \<Rightarrow> diag list \<Rightarrow> 'a proc_scheme \<Rightarrow> 'a proc_scheme" where
  "return_with c ds st = st\<lparr>stderr := stderr st @ ds, exit_status := Some c\<rparr>"

section \<open>temsxz: command line\<close>

text \<open>
  \<^verbatim>\<open>argv[i][k]\<close> on a C string: the character at \<open>k\<close>, the terminating NUL at its end.
  The source's \<^verbatim>\<open>&&\<close> chain stops at the first NUL it meets, so no index past the
  terminator is read.
\<close>

definition cchar :: "string \<Rightarrow> nat \<Rightarrow> char" where
  "cchar s k = (if k < length s then s ! k else CHR 0x00)"

record config =
  compress :: int
  level :: int
  extreme :: int

definition default_config :: config where
  "default_config = \<lparr>compress = - 1, level = 6, extreme = 0\<rparr>"

definition is_level_arg :: "string \<Rightarrow> bool" where
  "is_level_arg a \<longleftrightarrow>
     cchar a 0 = CHR ''-'' \<and> (of_char (cchar a 1) :: nat) \<ge> of_char CHR ''0''
     \<and> (of_char (cchar a 1) :: nat) \<le> of_char CHR ''9'' \<and> cchar a 2 = CHR 0x00"

text \<open>The level that \<^verbatim>\<open>argv[i][1] - '0'\<close> computes, as a C \<^verbatim>\<open>int\<close>.\<close>

definition level_of :: "string \<Rightarrow> int" where
  "level_of a = int (of_char (cchar a 1)) - int (of_char CHR ''0'')"

fun parse_args :: "string list \<Rightarrow> config \<Rightarrow> (int \<times> diag list) + config" where
  "parse_args [] cfg = Inr cfg"
| "parse_args (a # as) cfg =
     (if a = ''-h'' \<or> a = ''--help'' then Inl (0, [Usage])
      else if a = ''-v'' \<or> a = ''--version'' then Inl (0, [Version_info])
      else if a = ''-c'' then parse_args as (cfg\<lparr>compress := 1\<rparr>)
      else if a = ''-d'' then parse_args as (cfg\<lparr>compress := 0\<rparr>)
      else if is_level_arg a then
        (let lv = level_of a in
         if lv < 0 \<or> lv > 9 then Inl (1, [Level_out_of_range])
         else parse_args as (cfg\<lparr>level := lv\<rparr>))
      else if a = ''-e'' then parse_args as (cfg\<lparr>extreme := 1\<rparr>)
      else Inl (1, [Unknown_option a, Use_h_for_help]))"

text \<open>
  The options of the usage text: the two that print and return 0, and all that the
  argument loop accepts.
\<close>

definition informational :: "string \<Rightarrow> bool" where
  "informational a \<longleftrightarrow> a = ''-h'' \<or> a = ''--help'' \<or> a = ''-v'' \<or> a = ''--version''"

definition recognised :: "string \<Rightarrow> bool" where
  "recognised a \<longleftrightarrow>
     informational a \<or> a = ''-c'' \<or> a = ''-d'' \<or> a = ''-e'' \<or> is_level_arg a"

section \<open>The pump state\<close>

text \<open>
  The buffers and cursors of a driver at the head of its loop. \<open>inbuf\<close> is the part of
  the input array that the last \<^verbatim>\<open>fread\<close> filled, so its length is the fill length
  (\<^verbatim>\<open>input.size\<close>, \<^verbatim>\<open>buf.in_size\<close>); \<open>in_pos\<close> is the read position in it
  (\<^verbatim>\<open>strm.next_in - in\<close>, \<^verbatim>\<open>input.pos\<close>, \<^verbatim>\<open>buf.in_pos\<close>), and \<^verbatim>\<open>strm.avail_in\<close> is what
  lies between the two. \<open>outbuf\<close> holds the bytes the engine has put into the output
  array and that are not written yet (\<^verbatim>\<open>strm.next_out - outbuf\<close>, \<^verbatim>\<open>buf.out_pos\<close> is its
  length); \<open>avail_out\<close> is \<^verbatim>\<open>strm.avail_out\<close> of temsxz, the only driver that keeps it
  across iterations. \<open>action\<close> belongs to the two liblzma drivers, \<open>compress_mode\<close> to
  temsxz, and \<open>refill\<close> to the gzip driver, where it tells whether control is at the head
  of the outer loop (read first) or of the inner loop.
\<close>

record 'e pump = proc +
  inbuf :: "byte list"
  in_pos :: nat
  outbuf :: "byte list"
  avail_out :: nat
  engine :: 'e
  action :: lzma_action
  compress_mode :: int
  refill :: bool

definition avail_in :: "'e pump \<Rightarrow> nat" where
  "avail_in st = length (inbuf st) - in_pos st"

definition window :: "'e pump \<Rightarrow> byte list" where
  "window st = drop (in_pos st) (inbuf st)"

definition running :: "'a proc_scheme \<Rightarrow> bool" where
  "running st \<longleftrightarrow> exit_status st = None"

definition start :: "'e \<Rightarrow> int \<Rightarrow> diag list \<Rightarrow> istream \<Rightarrow> ostream \<Rightarrow> 'e pump" where
  "start e c ds i out =
     \<lparr>stdin = i, stdout = out, stderr = ds, exit_status = None,
      inbuf = [], in_pos = 0, outbuf = [], avail_out = CHUNK, engine = e,
      action = LZMA_RUN, compress_mode = c, refill = True\<rparr>"

definition failed_start :: "int \<Rightarrow> diag list \<Rightarrow> istream \<Rightarrow> ostream \<Rightarrow> proc" where
  "failed_start c ds i out = \<lparr>stdin = i, stdout = out, stderr = ds, exit_status = Some c\<rparr>"

section \<open>decompress\_xz.c\<close>

definition xz_fill :: "'e pump \<Rightarrow> 'e pump" where
  "xz_fill st =
     (if avail_in st = 0 then
        (case fread CHUNK (stdin st) of (bs, f) \<Rightarrow>
           let st1 = st\<lparr>stdin := f, inbuf := bs, in_pos := 0\<rparr> in
           if ferror f then return_with 1 [Read_error] st1
           else if length bs = 0 then st1\<lparr>action := LZMA_FINISH\<rparr>
           else st1)
      else st)"

definition xz_code :: "'e lzma_lib \<Rightarrow> 'e pump \<Rightarrow> 'e pump" where
  "xz_code lib st =
     (case within (window st) CHUNK (lzma_code lib (engine st) (action st) (window st) CHUNK) of
        (e, c, p, ret) \<Rightarrow>
          let st1 = st\<lparr>engine := e, in_pos := in_pos st + c\<rparr> in
          if ret \<noteq> LZMA_OK \<and> ret \<noteq> LZMA_STREAM_END then return_with 1 [Lzma_error ret] st1
          else (case fwrite p (stdout st1) of (k, g) \<Rightarrow>
            let st2 = st1\<lparr>stdout := g\<rparr> in
            if oerror g then return_with 1 [Write_error] st2
            else if ret = LZMA_STREAM_END then return_with 0 [] st2
            else st2))"

definition xz_step :: "'e lzma_lib \<Rightarrow> 'e pump \<Rightarrow> 'e pump" where
  "xz_step lib st =
     (if running st then
        (let st1 = xz_fill st in if running st1 then xz_code lib st1 else st1)
      else st)"

definition xz_run :: "'e lzma_lib \<Rightarrow> nat \<Rightarrow> 'e pump \<Rightarrow> 'e pump" where
  "xz_run lib n st = (xz_step lib ^^ n) st"

text \<open>The process after \<open>n\<close> turns of the loop; it has returned when \<open>exit_status\<close> is set.\<close>

definition xz_main :: "'e lzma_lib \<Rightarrow> istream \<Rightarrow> ostream \<Rightarrow> nat \<Rightarrow> proc" where
  "xz_main lib i out n =
     (case lzma_stream_decoder lib of (ret, e) \<Rightarrow>
        if ret \<noteq> LZMA_OK then failed_start 1 [Init_error] i out
        else proc.truncate (xz_run lib n (start e 0 [] i out)))"

section \<open>temsxz.c\<close>

definition LZMA_PRESET_EXTREME :: "32 word" where
  "LZMA_PRESET_EXTREME = push_bit 31 1"

definition tems_fill :: "'e pump \<Rightarrow> 'e pump" where
  "tems_fill st =
     (if avail_in st = 0 \<and> \<not> feof (stdin st) then
        (case fread CHUNK (stdin st) of (bs, f) \<Rightarrow>
           let st1 = st\<lparr>stdin := f, inbuf := bs, in_pos := 0\<rparr> in
           if ferror f then return_with 1 [Read_error] st1
           else if feof f then st1\<lparr>action := LZMA_FINISH\<rparr>
           else st1)
      else st)"

definition tems_code :: "'e lzma_lib \<Rightarrow> 'e pump \<Rightarrow> 'e pump \<times> lzma_ret" where
  "tems_code lib st =
     (case within (window st) (avail_out st)
             (lzma_code lib (engine st) (action st) (window st) (avail_out st)) of
        (e, c, p, ret) \<Rightarrow>
          (st\<lparr>engine := e, in_pos := in_pos st + c,
              outbuf := outbuf st @ p, avail_out := avail_out st - length p\<rparr>, ret))"

definition tems_write :: "lzma_ret \<Rightarrow> 'e pump \<Rightarrow> 'e pump" where
  "tems_write ret st =
     (if avail_out st = 0 \<or> ret \<noteq> LZMA_OK then
        (let write_size = CHUNK - avail_out st in
         if write_size > 0 then
           (case fwrite (take write_size (outbuf st)) (stdout st) of (k, g) \<Rightarrow>
              if k \<noteq> write_size then return_with 1 [Write_error] (st\<lparr>stdout := g\<rparr>)
              else st\<lparr>stdout := g, outbuf := [], avail_out := CHUNK\<rparr>)
         else st\<lparr>outbuf := [], avail_out := CHUNK\<rparr>)
      else st)"

definition tems_end :: "lzma_ret \<Rightarrow> 'e pump \<Rightarrow> 'e pump" where
  "tems_end ret st =
     (if ret \<noteq> LZMA_OK then
        (if ret = LZMA_STREAM_END then return_with 0 [] st
         else return_with 1 [Mode_error (compress_mode st \<noteq> 0)] st)
      else st)"

definition tems_step :: "'e lzma_lib \<Rightarrow> 'e pump \<Rightarrow> 'e pump" where
  "tems_step lib st =
     (if running st then
        (let st1 = tems_fill st in
         if running st1 then
           (case tems_code lib st1 of (st2, ret) \<Rightarrow>
              let st3 = tems_write ret st2 in
              if running st3 then tems_end ret st3 else st3)
         else st1)
      else st)"

definition tems_run :: "'e lzma_lib \<Rightarrow> nat \<Rightarrow> 'e pump \<Rightarrow> 'e pump" where
  "tems_run lib n st = (tems_step lib ^^ n) st"

text \<open>
  The mode the loop runs in: \<^verbatim>\<open>compress\<close> after the default is applied, and the engine
  that the chosen initialiser returns with its messages.
\<close>

definition direction :: "config \<Rightarrow> int" where
  "direction cfg = (if compress cfg = - 1 then 0 else compress cfg)"

definition preset :: "config \<Rightarrow> 32 word" where
  "preset cfg =
     (if extreme cfg \<noteq> 0 then or (word_of_int (level cfg)) LZMA_PRESET_EXTREME
      else word_of_int (level cfg))"

definition tems_init :: "'e lzma_lib \<Rightarrow> config \<Rightarrow> lzma_ret \<times> 'e \<times> diag list" where
  "tems_init lib cfg =
     (if direction cfg \<noteq> 0 then
        (case lzma_easy_encoder lib (preset cfg) of (ret, e) \<Rightarrow>
           (ret, e, if ret = LZMA_OK then [Compression_level (level cfg) (extreme cfg \<noteq> 0)] else []))
      else
        (case lzma_stream_decoder lib of (ret, e) \<Rightarrow> (ret, e, [Decompression])))"

definition tems_start :: "'e lzma_lib \<Rightarrow> config \<Rightarrow> istream \<Rightarrow> ostream \<Rightarrow> proc + 'e pump" where
  "tems_start lib cfg i out =
     (case tems_init lib cfg of (ret, e, ds) \<Rightarrow>
        if ret \<noteq> LZMA_OK then Inl (failed_start 1 (ds @ [Init_error]) i out)
        else Inr (start e (direction cfg) ds i out))"

definition tems_main :: "'e lzma_lib \<Rightarrow> string list \<Rightarrow> istream \<Rightarrow> ostream \<Rightarrow> nat \<Rightarrow> proc" where
  "tems_main lib argv i out n =
     (case parse_args argv default_config of
        Inl (c, ds) \<Rightarrow> failed_start c ds i out
      | Inr cfg \<Rightarrow>
          (case tems_start lib cfg i out of
             Inl p \<Rightarrow> p
           | Inr st \<Rightarrow> proc.truncate (tems_run lib n st)))"

section \<open>decompress\_gzip.c\<close>

definition gz_fill :: "'e pump \<Rightarrow> 'e pump" where
  "gz_fill st =
     (if refill st then
        (case fread CHUNK (stdin st) of (bs, f) \<Rightarrow>
           let st1 = st\<lparr>stdin := f, inbuf := bs, in_pos := 0\<rparr> in
           if ferror f then return_with 1 [Read_error] st1 else st1)
      else st)"

definition gz_inflate :: "'e zlib \<Rightarrow> 'e pump \<Rightarrow> 'e pump" where
  "gz_inflate lib st =
     (case within (window st) CHUNK (inflate lib (engine st) (window st) CHUNK) of
        (e, c, p, ret) \<Rightarrow>
          let st1 = st\<lparr>engine := e, in_pos := in_pos st + c\<rparr> in
          if ret = Z_STREAM_ERROR \<or> ret = Z_DATA_ERROR \<or> ret = Z_MEM_ERROR
          then return_with 1 [Zlib_error ret] st1
          else (case fwrite p (stdout st1) of (k, g) \<Rightarrow>
            let st2 = st1\<lparr>stdout := g\<rparr> in
            if oerror g then return_with 1 [Write_error] st2
            else if CHUNK - length p = 0 then st2\<lparr>refill := False\<rparr>
            else if ret \<noteq> Z_STREAM_END then st2\<lparr>refill := True\<rparr>
            else return_with 0 [] st2))"

definition gz_step :: "'e zlib \<Rightarrow> 'e pump \<Rightarrow> 'e pump" where
  "gz_step lib st =
     (if running st then
        (let st1 = gz_fill st in if running st1 then gz_inflate lib st1 else st1)
      else st)"

definition gz_run :: "'e zlib \<Rightarrow> nat \<Rightarrow> 'e pump \<Rightarrow> 'e pump" where
  "gz_run lib n st = (gz_step lib ^^ n) st"

definition gz_main :: "'e zlib \<Rightarrow> istream \<Rightarrow> ostream \<Rightarrow> nat \<Rightarrow> proc" where
  "gz_main lib i out n =
     (case inflateInit2 lib of (ret, e) \<Rightarrow>
        if ret \<noteq> Z_OK then failed_start 1 [Init_error] i out
        else proc.truncate (gz_run lib n (start e 0 [] i out)))"

section \<open>decompress\_zstd.c\<close>

definition zstd_fill :: "'e pump \<Rightarrow> 'e pump" where
  "zstd_fill st =
     (if in_pos st \<ge> length (inbuf st) then
        (case fread CHUNK (stdin st) of (bs, f) \<Rightarrow>
           let st1 = st\<lparr>stdin := f, inbuf := bs\<rparr> in
           if ferror f then return_with 1 [Read_error] st1
           else if length bs = 0 then return_with 0 [] st1
           else st1\<lparr>in_pos := 0\<rparr>)
      else st)"

definition zstd_code :: "'e zstd_lib \<Rightarrow> 'e pump \<Rightarrow> 'e pump" where
  "zstd_code lib st =
     (case within (window st) CHUNK (ZSTD_decompressStream lib (engine st) (window st) CHUNK) of
        (e, c, p, last_ret) \<Rightarrow>
          let st1 = st\<lparr>engine := e, in_pos := in_pos st + c\<rparr> in
          if ZSTD_isError last_ret then return_with 1 [Zstd_error last_ret] st1
          else (case fwrite p (stdout st1) of (k, g) \<Rightarrow>
            let st2 = st1\<lparr>stdout := g\<rparr> in
            if oerror g then return_with 1 [Write_error] st2
            else if last_ret = ZSTD_hint 0 then return_with 0 [] st2
            else st2))"

definition zstd_step :: "'e zstd_lib \<Rightarrow> 'e pump \<Rightarrow> 'e pump" where
  "zstd_step lib st =
     (if running st then
        (let st1 = zstd_fill st in if running st1 then zstd_code lib st1 else st1)
      else st)"

definition zstd_run :: "'e zstd_lib \<Rightarrow> nat \<Rightarrow> 'e pump \<Rightarrow> 'e pump" where
  "zstd_run lib n st = (zstd_step lib ^^ n) st"

definition zstd_main :: "'e zstd_lib \<Rightarrow> istream \<Rightarrow> ostream \<Rightarrow> nat \<Rightarrow> proc" where
  "zstd_main lib i out n =
     (case ZSTD_createDCtx lib of
        None \<Rightarrow> failed_start 1 [Init_error] i out
      | Some ctx \<Rightarrow> proc.truncate (zstd_run lib n (start ctx 0 [] i out)))"

section \<open>embedded/temsxz.c\<close>

definition emb_fill :: "'e pump \<Rightarrow> 'e pump" where
  "emb_fill st =
     (if in_pos st = length (inbuf st) \<and> \<not> feof (stdin st) then
        (case fread CHUNK (stdin st) of (bs, f) \<Rightarrow>
           let st1 = st\<lparr>stdin := f, inbuf := bs, in_pos := 0\<rparr> in
           if ferror f then return_with 1 [Read_error] st1 else st1)
      else st)"

definition emb_run_dec :: "'e xz_embedded \<Rightarrow> 'e pump \<Rightarrow> 'e pump \<times> xz_ret" where
  "emb_run_dec lib st =
     (case within (window st) (CHUNK - length (outbuf st))
             (xz_dec_run lib (engine st) (window st) (CHUNK - length (outbuf st))) of
        (e, c, p, ret) \<Rightarrow>
          (st\<lparr>engine := e, in_pos := in_pos st + c, outbuf := outbuf st @ p\<rparr>, ret))"

definition emb_write :: "'e pump \<Rightarrow> 'e pump" where
  "emb_write st =
     (if length (outbuf st) > 0 then
        (case fwrite (outbuf st) (stdout st) of (k, g) \<Rightarrow>
           if k \<noteq> length (outbuf st) then return_with 1 [Write_error] (st\<lparr>stdout := g\<rparr>)
           else st\<lparr>stdout := g, outbuf := []\<rparr>)
      else st)"

definition emb_end :: "xz_ret \<Rightarrow> 'e pump \<Rightarrow> 'e pump" where
  "emb_end ret st =
     (if ret = XZ_STREAM_END then return_with 0 [] st
      else if ret \<noteq> XZ_OK then return_with 1 [Xz_error ret] st
      else if length (inbuf st) > 0 \<or> \<not> feof (stdin st) then st
      else return_with 0 [] st)"

definition emb_step :: "'e xz_embedded \<Rightarrow> 'e pump \<Rightarrow> 'e pump" where
  "emb_step lib st =
     (if running st then
        (let st1 = emb_fill st in
         if running st1 then
           (case emb_run_dec lib st1 of (st2, ret) \<Rightarrow>
              let st3 = emb_write st2 in
              if running st3 then emb_end ret st3 else st3)
         else st1)
      else st)"

definition emb_run :: "'e xz_embedded \<Rightarrow> nat \<Rightarrow> 'e pump \<Rightarrow> 'e pump" where
  "emb_run lib n st = (emb_step lib ^^ n) st"

definition emb_main :: "'e xz_embedded \<Rightarrow> istream \<Rightarrow> ostream \<Rightarrow> nat \<Rightarrow> proc" where
  "emb_main lib i out n =
     (case xz_dec_init lib of
        None \<Rightarrow> failed_start 1 [Init_error] i out
      | Some s \<Rightarrow> proc.truncate (emb_run lib n (start s 0 [] i out)))"

section \<open>Reference engines\<close>

text \<open>
  Small engines with the interface of the libraries, on which the drivers can be run.
  The first is a codec for both directions: a container is the byte \<open>MAGIC\<close> followed
  by the payload with every byte raised by one. Its encoder puts the header out on
  its first call with room; its decoder asks for the header first, fails with
  \<open>LZMA_FORMAT_ERROR\<close> on another first byte and with \<open>LZMA_BUF_ERROR\<close> when it is told
  to finish before any header came. Both end the stream when they are told to finish
  and have taken all the input.
\<close>

datatype toy = Enc bool | Dec bool

definition MAGIC :: byte where
  "MAGIC = 0xFD"

definition toy_body ::
  "lzma_action \<Rightarrow> (byte \<Rightarrow> byte) \<Rightarrow> byte list \<Rightarrow> nat \<Rightarrow> nat \<times> byte list \<times> lzma_ret" where
  "toy_body a f w n =
     (let k = min (length w) n
      in (k, map f (take k w),
          if a = LZMA_FINISH \<and> k = length w then LZMA_STREAM_END else LZMA_OK))"

fun toy_code :: "toy \<Rightarrow> lzma_action \<Rightarrow> byte list \<Rightarrow> nat \<Rightarrow> toy \<times> nat \<times> byte list \<times> lzma_ret" where
  "toy_code (Enc False) a w n =
     (if n = 0 then (Enc False, 0, [], LZMA_OK)
      else case toy_body a (\<lambda>b. b + 1) w (n - 1) of (k, p, r) \<Rightarrow> (Enc True, k, MAGIC # p, r))"
| "toy_code (Enc True) a w n =
     (case toy_body a (\<lambda>b. b + 1) w n of (k, p, r) \<Rightarrow> (Enc True, k, p, r))"
| "toy_code (Dec False) a w n =
     (case w of
        [] \<Rightarrow> (Dec False, 0, [], if a = LZMA_FINISH then LZMA_BUF_ERROR else LZMA_OK)
      | x # w' \<Rightarrow>
          if x \<noteq> MAGIC then (Dec False, 0, [], LZMA_FORMAT_ERROR)
          else case toy_body a (\<lambda>b. b - 1) w' n of (k, p, r) \<Rightarrow> (Dec True, Suc k, p, r))"
| "toy_code (Dec True) a w n =
     (case toy_body a (\<lambda>b. b - 1) w n of (k, p, r) \<Rightarrow> (Dec True, k, p, r))"

definition toy_lzma :: "toy lzma_lib" where
  "toy_lzma =
     \<lparr>lzma_easy_encoder = (\<lambda>p. (LZMA_OK, Enc False)),
      lzma_stream_decoder = (LZMA_OK, Dec False),
      lzma_code = toy_code\<rparr>"

text \<open>
  The container that the reference encoder writes for a payload.
\<close>

definition toy_container :: "byte list \<Rightarrow> byte list" where
  "toy_container bs = MAGIC # map (\<lambda>b. b + 1) bs"

text \<open>
  The same codec behind liblzma's rule for calls without progress: a call that would
  return \<open>LZMA_OK\<close> having consumed nothing and produced nothing is answered \<open>LZMA_OK\<close>
  the first time and \<open>LZMA_BUF_ERROR\<close> the second time in a row. The state of this engine
  carries whether its last call was such a call.
\<close>

definition strict_code ::
  "toy \<times> bool \<Rightarrow> lzma_action \<Rightarrow> byte list \<Rightarrow> nat \<Rightarrow> (toy \<times> bool) \<times> nat \<times> byte list \<times> lzma_ret" where
  "strict_code s a w n =
     (case toy_code (fst s) a w n of (e', c, p, r) \<Rightarrow>
        if r = LZMA_OK \<and> c = 0 \<and> p = []
        then ((e', True), c, p, if snd s then LZMA_BUF_ERROR else LZMA_OK)
        else ((e', False), c, p, r))"

definition strict_lzma :: "(toy \<times> bool) lzma_lib" where
  "strict_lzma =
     \<lparr>lzma_easy_encoder = (\<lambda>p. (LZMA_OK, (Enc False, False))),
      lzma_stream_decoder = (LZMA_OK, (Dec False, False)),
      lzma_code = strict_code\<rparr>"

text \<open>
  The decode-only libraries get a decoder of zero-terminated frames: the payload has no
  zero byte, and the zero byte ends the frame. \<open>zt_scan w n\<close> is what one call does on
  the window \<open>w\<close> with room \<open>n\<close>: the count of bytes consumed, the bytes produced,
  and whether the frame ended.
\<close>

definition zt_scan :: "byte list \<Rightarrow> nat \<Rightarrow> nat \<times> byte list \<times> bool" where
  "zt_scan w n =
     (let p = takeWhile (\<lambda>b. b \<noteq> 0) w; k = min (length p) n
      in if k < length p then (k, take k p, False)
         else if k < length w then (Suc k, p, True)
         else (k, p, False))"

definition zt_zstd :: "unit zstd_lib" where
  "zt_zstd =
     \<lparr>ZSTD_createDCtx = Some (),
      ZSTD_decompressStream = (\<lambda>ctx w n. case zt_scan w n of
         (c, p, ended) \<Rightarrow> (ctx, c, p, if ended then ZSTD_hint 0 else ZSTD_hint 1))\<rparr>"

text \<open>
  As zlib does, the reference \<open>inflate\<close> answers \<open>Z_BUF_ERROR\<close> to a call on which it can
  neither consume nor produce. As xz-embedded does, the reference \<open>xz_dec_run\<close> answers
  \<open>XZ_OK\<close> to the first such call and \<open>XZ_BUF_ERROR\<close> to the second in a row; its state
  is whether the last call was such a call.
\<close>

definition zt_zlib :: "unit zlib" where
  "zt_zlib =
     \<lparr>inflateInit2 = (Z_OK, ()),
      inflate = (\<lambda>s w n. case zt_scan w n of
         (c, p, ended) \<Rightarrow>
           (s, c, p, if ended then Z_STREAM_END
                     else if c = 0 \<and> p = [] then Z_BUF_ERROR else Z_OK))\<rparr>"

definition zt_xz :: "bool xz_embedded" where
  "zt_xz =
     \<lparr>xz_dec_init = Some False,
      xz_dec_run = (\<lambda>stalled w n. case zt_scan w n of
         (c, p, ended) \<Rightarrow>
           if ended then (False, c, p, XZ_STREAM_END)
           else if c = 0 \<and> p = [] then (True, c, p, if stalled then XZ_BUF_ERROR else XZ_OK)
           else (False, c, p, XZ_OK))\<rparr>"

text \<open>
  An engine that takes all the input it is given, produces nothing and never ends the
  stream: a driver goes on calling it for as long as it is allowed to run.
\<close>

definition hungry_lzma :: "unit lzma_lib" where
  "hungry_lzma =
     \<lparr>lzma_easy_encoder = (\<lambda>p. (LZMA_OK, ())),
      lzma_stream_decoder = (LZMA_OK, ()),
      lzma_code = (\<lambda>e a w n. (e, length w, [], LZMA_OK))\<rparr>"

section \<open>Properties of states and runs\<close>

text \<open>
  The cursor invariant of the input buffer: read position, fill length, capacity.
\<close>

definition cursors_ok :: "'e pump \<Rightarrow> bool" where
  "cursors_ok st \<longleftrightarrow> in_pos st \<le> length (inbuf st) \<and> length (inbuf st) \<le> CHUNK"

text \<open>
  A turn of a loop, started at \<open>st\<close>, takes from the input stream or puts new bytes
  into the input buffer only if the buffer was consumed to its end.
\<close>

definition reads_only_when_consumed :: "('e pump \<Rightarrow> 'e pump) \<Rightarrow> 'e pump \<Rightarrow> bool" where
  "reads_only_when_consumed step st \<longleftrightarrow>
     (stdin (step st) \<noteq> stdin st \<or> inbuf (step st) \<noteq> inbuf st
        \<longrightarrow> in_pos st = length (inbuf st))"

text \<open>The output buffer of temsxz and its free room add up to the capacity.\<close>

definition out_ok :: "'e pump \<Rightarrow> bool" where
  "out_ok st \<longleftrightarrow> length (outbuf st) + avail_out st = CHUNK"

text \<open>
  Two input streams that hold the same bytes, cut into pieces differently, with no
  read error ahead.
\<close>

definition same_bytes :: "istream \<Rightarrow> istream \<Rightarrow> bool" where
  "same_bytes f g \<longleftrightarrow>
     feof f = feof g \<and> ferror f = ferror g \<and>
     (\<exists>cs ds. pending f = map Bytes cs \<and> pending g = map Bytes ds \<and> concat cs = concat ds)"

text \<open>What a process shows apart from the input it has left unread.\<close>

definition outcome :: "proc \<Rightarrow> ostream \<times> diag list \<times> int option" where
  "outcome p = (stdout p, stderr p, exit_status p)"

text \<open>
  A state whose next engine call, if the loop still runs, is made with the finish
  action.
\<close>

definition finishing :: "'e pump \<Rightarrow> bool" where
  "finishing st \<longleftrightarrow> (running st \<longrightarrow> action st = LZMA_FINISH)"

section \<open>The calls an engine receives\<close>

text \<open>
  \<open>recording lib\<close> is the library \<open>lib\<close> with a log added to the state of its engine: every
  call of \<^verbatim>\<open>lzma_code\<close> appends the action it was given and is passed on to \<open>lib\<close>
  unchanged. \<open>actions_given\<close> reads the log of the engine of a driver, and \<open>forget\<close>
  is the state of the driver without the log.
\<close>

definition recording :: "'e lzma_lib \<Rightarrow> ('e \<times> lzma_action list) lzma_lib" where
  "recording lib =
     \<lparr>lzma_easy_encoder = (\<lambda>p. case lzma_easy_encoder lib p of (r, e) \<Rightarrow> (r, (e, []))),
      lzma_stream_decoder = (case lzma_stream_decoder lib of (r, e) \<Rightarrow> (r, (e, []))),
      lzma_code = (\<lambda>el a w n. case lzma_code lib (fst el) a w n of
                     (e', c, p, r) \<Rightarrow> ((e', snd el @ [a]), c, p, r))\<rparr>"

definition actions_given :: "('e \<times> lzma_action list) pump \<Rightarrow> lzma_action list" where
  "actions_given st = snd (engine st)"

definition forget :: "('e \<times> 'l) pump \<Rightarrow> 'e pump" where
  "forget st =
     \<lparr>stdin = stdin st, stdout = stdout st, stderr = stderr st, exit_status = exit_status st,
      inbuf = inbuf st, in_pos = in_pos st, outbuf = outbuf st, avail_out = avail_out st,
      engine = fst (engine st), action = action st, compress_mode = compress_mode st,
      refill = refill st\<rparr>"

section \<open>The contract of a codec engine\<close>

text \<open>
  What the round trip needs from liblzma, which is not part of the repository.
  \<open>feeding lib e0 T e i out fin\<close>: started in the state \<open>e0\<close>, the engine has reached the
  state \<open>e\<close> by calls that all returned \<open>LZMA_OK\<close> and were made the way temsxz.c makes
  them on the whole input \<open>T\<close>: with room in the output buffer, on a window of the bytes
  of \<open>T\<close> that follow the ones it has consumed, on an empty window only with the finish
  action, with the finish action only when the window reaches the end of \<open>T\<close>, and
  with the finish action again once it was used. So far it has consumed \<open>i\<close> and
  produced \<open>out\<close>, and \<open>fin\<close> tells whether the last call was made with the finish
  action.
\<close>

inductive feeding ::
  "'e lzma_lib \<Rightarrow> 'e \<Rightarrow> byte list \<Rightarrow> 'e \<Rightarrow> byte list \<Rightarrow> byte list \<Rightarrow> bool \<Rightarrow> bool"
  for lib :: "'e lzma_lib" and e0 :: 'e and T :: "byte list" where
  feeding_start: "feeding lib e0 T e0 [] [] False"
| feeding_call:
    "feeding lib e0 T e i out fin \<Longrightarrow> 0 < n \<Longrightarrow> i @ w @ t = T \<Longrightarrow>
     w \<noteq> [] \<or> a = LZMA_FINISH \<Longrightarrow>
     (a = LZMA_FINISH \<longrightarrow> t = []) \<Longrightarrow> (fin \<longrightarrow> a = LZMA_FINISH) \<Longrightarrow>
     within w n (lzma_code lib e a w n) = (e', c, p, LZMA_OK) \<Longrightarrow>
     feeding lib e0 T e' (i @ take c w) (out @ p) (a = LZMA_FINISH)"

text \<open>
  \<open>transforms lib e0 work T R\<close>: started in \<open>e0\<close> and fed \<open>T\<close> in that way, the engine
  reports no error, has produced exactly \<open>R\<close> when it reports the end of the stream,
  and does not stall: a call that returns \<open>LZMA_OK\<close> consumes input or lowers the bound
  \<open>work\<close> on what the engine has left to do without new input. A call on an empty
  window with the run action, to which liblzma answers \<open>LZMA_BUF_ERROR\<close> the second time
  in a row, is not among the calls the contract speaks of.
\<close>

definition transforms ::
  "'e lzma_lib \<Rightarrow> 'e \<Rightarrow> ('e \<Rightarrow> nat) \<Rightarrow> byte list \<Rightarrow> byte list \<Rightarrow> bool" where
  "transforms lib e0 work T R \<longleftrightarrow>
     (\<forall>e i out fin a w t n e' c p r.
        feeding lib e0 T e i out fin \<and> 0 < n \<and> i @ w @ t = T
        \<and> (w \<noteq> [] \<or> a = LZMA_FINISH)
        \<and> (a = LZMA_FINISH \<longrightarrow> t = []) \<and> (fin \<longrightarrow> a = LZMA_FINISH)
        \<and> within w n (lzma_code lib e a w n) = (e', c, p, r)
        \<longrightarrow> (r = LZMA_OK \<or> r = LZMA_STREAM_END)
          \<and> (r = LZMA_STREAM_END \<longrightarrow> out @ p = R)
          \<and> (r = LZMA_OK \<longrightarrow> 0 < c \<or> work e' < work e))"

text \<open>The bytes an input stream has not delivered yet.\<close>

definition unread :: "istream \<Rightarrow> byte list" where
  "unread f = concat (map (\<lambda>d. case d of Bytes b \<Rightarrow> b | IOError \<Rightarrow> []) (pending f))"

text \<open>
  The state of temsxz at the head of its loop while it feeds the engine the input \<open>T\<close>,
  with an output stream that takes everything: what the engine has consumed, the
  window and the unread input make up \<open>T\<close>, and what the engine has produced is what
  is written followed by what is buffered. \<open>todo\<close> is what goes down at every turn.
\<close>

definition pump_inv :: "'e lzma_lib \<Rightarrow> 'e \<Rightarrow> byte list \<Rightarrow> diag list \<Rightarrow> 'e pump \<Rightarrow> bool" where
  "pump_inv lib e0 T ds st \<longleftrightarrow>
     running st \<and> stderr st = ds \<and> room (stdout st) = None \<and> out_ok st \<and> 0 < avail_out st
     \<and> in_pos st \<le> length (inbuf st) \<and> \<not> ferror (stdin st)
     \<and> (action st = LZMA_FINISH \<longleftrightarrow> feof (stdin st))
     \<and> (\<exists>cs i fin. pending (stdin st) = map Bytes cs \<and> (feof (stdin st) \<longrightarrow> concat cs = [])
           \<and> i @ window st @ concat cs = T \<and> (fin \<longrightarrow> action st = LZMA_FINISH)
           \<and> feeding lib e0 T (engine st) i (written (stdout st) @ outbuf st) fin)"

definition todo :: "('e \<Rightarrow> nat) \<Rightarrow> 'e pump \<Rightarrow> nat \<times> nat" where
  "todo work st = (length (window st) + length (unread (stdin st)), work (engine st))"

text \<open>The bound on the work left of the reference codec: its header.\<close>

definition toy_work :: "toy \<Rightarrow> nat" where
  "toy_work e = (case e of Enc started \<Rightarrow> if started then 0 else 1
                 | Dec started \<Rightarrow> if started then 0 else 1)"

section \<open>The command line of temsxz\<close>

lemma of_char_0: "(of_char CHR ''0'' :: nat) = 48" "(of_char CHR ''9'' :: nat) = 57" by simp_all

lemma is_level_arg_range:
  "is_level_arg a \<Longrightarrow> 0 \<le> level_of a \<and> level_of a \<le> 9"
  by (simp add: is_level_arg_def level_of_def)

lemma parse_args_level:
  "0 \<le> level cfg \<and> level cfg \<le> 9 \<Longrightarrow>
   (case parse_args as cfg of
      Inl (c, ds) \<Rightarrow> Level_out_of_range \<notin> set ds
    | Inr cfg' \<Rightarrow> 0 \<le> level cfg' \<and> level cfg' \<le> 9)"
proof (induction as arbitrary: cfg)
  case Nil
  then show ?case by simp
next
  case (Cons a as)
  show ?case
    using Cons.prems is_level_arg_range[of a]
    by (auto simp: Let_def intro!: Cons.IH)
qed

lemma is_level_arg_shape:
  assumes "CHR 0x00 \<notin> set a"
  shows "is_level_arg a \<longleftrightarrow> (\<exists>d. a = [CHR ''-'', d] \<and> (48::nat) \<le> of_char d \<and> (of_char d :: nat) \<le> 57)"
proof
  assume L: "is_level_arg a"
  have l2: "length a = 2"
  proof (rule ccontr)
    assume "length a \<noteq> 2"
    then consider "length a < 2" | "length a > 2" by linarith
    then show False
    proof cases
      case 1 then show ?thesis using L by (cases a; cases "tl a") (auto simp: is_level_arg_def cchar_def)
    next
      case 2 then have "a ! 2 \<in> set a" by simp
      moreover have "a ! 2 = CHR 0x00" using L 2 by (simp add: is_level_arg_def cchar_def)
      ultimately show ?thesis using assms by simp
    qed
  qed
  then obtain x y where a: "a = [x, y]" by (cases a; cases "tl a") auto
  show "\<exists>d. a = [CHR ''-'', d] \<and> (48::nat) \<le> of_char d \<and> (of_char d :: nat) \<le> 57"
    using L unfolding a by (auto simp: is_level_arg_def cchar_def)
next
  assume "\<exists>d. a = [CHR ''-'', d] \<and> (48::nat) \<le> of_char d \<and> (of_char d :: nat) \<le> 57"
  then show "is_level_arg a" by (auto simp: is_level_arg_def cchar_def)
qed




lemma parse_args_Cons:
  "parse_args (a # as) cfg =
     (if a = ''-h'' \<or> a = ''--help'' then Inl (0, [Usage])
      else if a = ''-v'' \<or> a = ''--version'' then Inl (0, [Version_info])
      else if a = ''-c'' then parse_args as (cfg\<lparr>compress := 1\<rparr>)
      else if a = ''-d'' then parse_args as (cfg\<lparr>compress := 0\<rparr>)
      else if is_level_arg a then parse_args as (cfg\<lparr>level := level_of a\<rparr>)
      else if a = ''-e'' then parse_args as (cfg\<lparr>extreme := 1\<rparr>)
      else Inl (1, [Unknown_option a, Use_h_for_help]))"
proof (cases "is_level_arg a")
  case True
  with is_level_arg_range[of a] show ?thesis by (simp add: Let_def)
next
  case False
  then show ?thesis by simp
qed

lemma parse_args_Inr_tail:
  "parse_args (p # rest) cfg = Inr cfg' \<Longrightarrow> \<exists>cfg1. parse_args rest cfg1 = Inr cfg'"
  unfolding parse_args_Cons by (auto split: if_splits)

lemma level_arg_not_literal:
  assumes "is_level_arg a"
  shows "a \<noteq> ''-h''" "a \<noteq> ''--help''" "a \<noteq> ''-v''" "a \<noteq> ''--version''"
    "a \<noteq> ''-c''" "a \<noteq> ''-d''" "a \<noteq> ''-e''"
  using assms by (auto simp: is_level_arg_def cchar_def)

lemma parse_args_option_tail:
  assumes "recognised p" "\<not> informational p"
  shows "\<exists>cfg1. parse_args (p # rest) cfg = parse_args rest cfg1"
proof -
  from assms consider "p = ''-c''" | "p = ''-d''" | "p = ''-e''" | "is_level_arg p"
    unfolding recognised_def by blast
  then show ?thesis
  proof cases
    case 1 then show ?thesis by (simp add: parse_args_Cons del: parse_args.simps) blast
  next
    case 2 then show ?thesis by (simp add: parse_args_Cons del: parse_args.simps) blast
  next
    case 3
    have "\<not> is_level_arg ''-e''" by (simp add: is_level_arg_def cchar_def)
    with 3 show ?thesis by (simp add: parse_args_Cons del: parse_args.simps) blast
  next
    case 4
    with level_arg_not_literal[OF 4] show ?thesis
      by (simp add: parse_args_Cons del: parse_args.simps) blast
  qed
qed

lemma parse_args_keeps_level:
  "\<forall>b \<in> set bs. \<not> is_level_arg b \<Longrightarrow> parse_args bs cfg = Inr cfg' \<Longrightarrow> level cfg' = level cfg"
proof (induction bs arbitrary: cfg)
  case Nil then show ?case by simp
next
  case (Cons b bs)
  have nl: "\<not> is_level_arg b" and rest: "\<forall>b \<in> set bs. \<not> is_level_arg b" using Cons.prems(1) by simp_all
  from Cons.prems(2) nl obtain cfg1 where "parse_args bs cfg1 = Inr cfg'" "level cfg1 = level cfg"
    unfolding parse_args_Cons by (auto split: if_splits)
  with Cons.IH[OF rest] show ?case by simp
qed

lemma parse_args_last_level:
  "is_level_arg a \<Longrightarrow> \<forall>b \<in> set bs. \<not> is_level_arg b \<Longrightarrow> parse_args (pre @ a # bs) cfg = Inr cfg'
   \<Longrightarrow> level cfg' = level_of a"
proof (induction pre arbitrary: cfg)
  case Nil
  note na = level_arg_not_literal[OF Nil.prems(1)]
  from Nil.prems(3) have "parse_args bs (cfg\<lparr>level := level_of a\<rparr>) = Inr cfg'"
    using na Nil.prems(1) by (simp add: parse_args_Cons del: parse_args.simps)
  from parse_args_keeps_level[OF Nil.prems(2) this] show ?case by simp
next
  case (Cons p pre)
  from Cons.prems(3) have "parse_args (p # (pre @ a # bs)) cfg = Inr cfg'" by simp
  from parse_args_Inr_tail[OF this] obtain cfg1 where "parse_args (pre @ a # bs) cfg1 = Inr cfg'" ..
  from Cons.IH[OF Cons.prems(1,2) this] show ?case .
qed

lemma parse_args_unknown:
  "\<not> recognised a \<Longrightarrow> \<forall>b \<in> set pre. recognised b \<and> \<not> informational b \<Longrightarrow>
   parse_args (pre @ a # bs) cfg = Inl (1, [Unknown_option a, Use_h_for_help])"
proof (induction pre arbitrary: cfg)
  case Nil then show ?case
    by (simp add: parse_args_Cons recognised_def informational_def del: parse_args.simps)
next
  case (Cons p pre)
  have p: "recognised p" "\<not> informational p" and rest: "\<forall>b \<in> set pre. recognised b \<and> \<not> informational b"
    using Cons.prems(2) by simp_all
  from parse_args_option_tail[OF p] obtain cfg1
    where "parse_args (p # (pre @ a # bs)) cfg = parse_args (pre @ a # bs) cfg1" by blast
  then show ?case using Cons.IH[OF Cons.prems(1) rest, of cfg1] by simp
qed

lemma parse_args_keeps_compress:
  "''-c'' \<notin> set as \<Longrightarrow> ''-d'' \<notin> set as \<Longrightarrow> parse_args as cfg = Inr cfg' \<Longrightarrow> compress cfg' = compress cfg"
proof (induction as arbitrary: cfg)
  case Nil then show ?case by simp
next
  case (Cons b bs)
  have nb: "b \<noteq> ''-c''" "b \<noteq> ''-d''" and rest: "''-c'' \<notin> set bs" "''-d'' \<notin> set bs"
    using Cons.prems(1,2) by auto
  from Cons.prems(3) nb obtain cfg1 where "parse_args bs cfg1 = Inr cfg'" "compress cfg1 = compress cfg"
    unfolding parse_args_Cons by (auto split: if_splits)
  with Cons.IH[OF rest] show ?case by simp
qed

section \<open>Reading and writing\<close>

lemma gather_length: "length (fst (gather ds n)) \<le> n"
proof (induction ds arbitrary: n)
  case Nil then show ?case by simp
next
  case (Cons d ds)
  show ?case
  proof (cases d)
    case IOError then show ?thesis by simp
  next
    case (Bytes b)
    show ?thesis
    proof (cases "length b \<le> n")
      case True
      with Cons.IH[of "n - length b"] Bytes show ?thesis
        by (auto split: prod.splits)
    next
      case False with Bytes show ?thesis by simp
    qed
  qed
qed

lemma fread_length: "length (fst (fread n f)) \<le> n"
  using gather_length[of "pending f" n] by (auto simp: fread_def split: prod.splits)

lemma fread_length': "fread n f = (bs, g) \<Longrightarrow> length bs \<le> n"
  using fread_length[of n f] by simp

lemma gather_empty: "0 < n \<Longrightarrow> gather ds n = ([], r, e, x) \<Longrightarrow> e \<or> x"
proof (induction ds arbitrary: n)
  case Nil then show ?case by simp
next
  case (Cons d ds)
  show ?case
  proof (cases d)
    case IOError with Cons.prems show ?thesis by simp
  next
    case (Bytes b)
    show ?thesis
    proof (cases "b = []")
      case True
      with Cons.prems Bytes have "gather ds n = ([], r, e, x)" by (simp split: prod.splits)
      with Cons.IH[OF Cons.prems(1)] show ?thesis .
    next
      case False
      with Cons.prems Bytes show ?thesis by (auto split: if_splits prod.splits)
    qed
  qed
qed

lemma fread_empty: "0 < n \<Longrightarrow> \<not> feof f \<Longrightarrow> fread n f = ([], g) \<Longrightarrow> feof g \<or> ferror g"
  by (auto simp: fread_def split: prod.splits dest: gather_empty)

lemma gather_Bytes:
  "\<exists>cs'. gather (map Bytes cs) n = (take n (concat cs), map Bytes cs', length (concat cs) < n, False)
         \<and> concat cs' = drop n (concat cs)"
proof (induction cs arbitrary: n)
  case Nil then show ?case by simp
next
  case (Cons b cs)
  show ?case
  proof (cases "n = 0")
    case True
    then show ?thesis by (intro exI[of _ "b # cs"]) simp
  next
    case n: False
    show ?thesis
    proof (cases "length b \<le> n")
      case True
      from Cons.IH[of "n - length b"] obtain cs' where
        g: "gather (map Bytes cs) (n - length b)
              = (take (n - length b) (concat cs), map Bytes cs', length (concat cs) < n - length b, False)"
        and c: "concat cs' = drop (n - length b) (concat cs)" by blast
      show ?thesis using n True g c by (intro exI[of _ cs']) auto
    next
      case False
      then show ?thesis using n by (intro exI[of _ "drop n b # cs"]) simp
    qed
  qed
qed

lemma fread_same_bytes:
  assumes "same_bytes f g"
  shows "fst (fread n f) = fst (fread n g) \<and> same_bytes (snd (fread n f)) (snd (fread n g))"
proof (cases "feof f")
  case True
  with assms show ?thesis by (simp add: fread_def same_bytes_def)
next
  case False
  from assms obtain cs ds where p: "pending f = map Bytes cs" "pending g = map Bytes ds"
    and c: "concat cs = concat ds" and fl: "feof f = feof g" "ferror f = ferror g"
    unfolding same_bytes_def by blast
  from gather_Bytes[of cs n] obtain cs' where
    g1: "gather (map Bytes cs) n = (take n (concat cs), map Bytes cs', length (concat cs) < n, False)"
    and c1: "concat cs' = drop n (concat cs)" by blast
  from gather_Bytes[of ds n] obtain ds' where
    g2: "gather (map Bytes ds) n = (take n (concat ds), map Bytes ds', length (concat ds) < n, False)"
    and c2: "concat ds' = drop n (concat ds)" by blast
  have sf: "snd (fread n f) = \<lparr>pending = map Bytes cs', feof = length (concat cs) < n, ferror = ferror f\<rparr>"
    using False p g1 by (simp add: fread_def)
  have sg: "snd (fread n g) = \<lparr>pending = map Bytes ds', feof = length (concat ds) < n, ferror = ferror g\<rparr>"
    using False fl p g2 by (simp add: fread_def)
  have ex: "\<exists>xs ys. map Bytes cs' = map Bytes xs \<and> map Bytes ds' = map Bytes ys \<and> concat xs = concat ys"
    using c c1 c2 by (intro exI[of _ cs'] exI[of _ ds']) simp
  have "same_bytes (snd (fread n f)) (snd (fread n g))"
    unfolding sf sg same_bytes_def using c fl ex by simp
  moreover have "fst (fread n f) = fst (fread n g)"
    using False p c fl g1 g2 by (simp add: fread_def)
  ultimately show ?thesis by simp
qed

lemma fwrite_cases:
  "fwrite bs f = (k, g) \<Longrightarrow>
     (k = length bs \<and> written g = written f @ bs \<and> oerror g = oerror f)
   \<or> (k < length bs \<and> oerror g)"
  by (auto simp: fwrite_def split: option.splits if_splits)

section \<open>The cursors of the input buffer\<close>

lemma funpow_invariant: "P x \<Longrightarrow> (\<And>y. P y \<Longrightarrow> P (f y)) \<Longrightarrow> P ((f ^^ n) x)"
  by (induction n) auto

lemma within_bounds:
  "within w n a = (e, c, p, r) \<Longrightarrow> c \<le> length w \<and> length p \<le> n"
  by (auto simp: within_def split: prod.splits)

lemma running_return_with [simp]: "\<not> running (return_with c ds st)"
  by (simp add: running_def return_with_def)

lemma return_with_fields [simp]:
  "stdin (return_with c ds st) = stdin st"
  "stdout (return_with c ds st) = stdout st"
  "stderr (return_with c ds st) = stderr st @ ds"
  "exit_status (return_with c ds st) = Some c"
  by (simp_all add: return_with_def)

lemma return_with_pump [simp]:
  "inbuf (return_with c ds st) = inbuf st"
  "in_pos (return_with c ds st) = in_pos st"
  "outbuf (return_with c ds st) = outbuf st"
  "avail_out (return_with c ds st) = avail_out st"
  "engine (return_with c ds st) = engine st"
  "action (return_with c ds st) = action st"
  "compress_mode (return_with c ds st) = compress_mode st"
  "refill (return_with c ds st) = refill st"
  by (simp_all add: return_with_def)

lemma cursors_ok_start: "cursors_ok (start e c ds i out)"
  by (simp add: cursors_ok_def start_def)

lemma cursors_ok_return [simp]: "cursors_ok (return_with c ds st) = cursors_ok st"
  by (simp add: cursors_ok_def)

subsection \<open>decompress\_xz.c\<close>

lemma xz_step_stopped: "\<not> running st \<Longrightarrow> xz_step lib st = st"
  by (simp add: xz_step_def)

lemma xz_fill_cursors: "cursors_ok st \<Longrightarrow> cursors_ok (xz_fill st)"
  by (auto simp: xz_fill_def cursors_ok_def Let_def split: prod.splits dest: fread_length')

lemma xz_code_cursors: "cursors_ok st \<Longrightarrow> cursors_ok (xz_code lib st)"
  by (auto simp: xz_code_def cursors_ok_def window_def Let_def split: prod.splits dest!: within_bounds)

lemma xz_step_cursors: "cursors_ok st \<Longrightarrow> cursors_ok (xz_step lib st)"
  by (simp add: xz_step_def Let_def xz_fill_cursors xz_code_cursors)

lemma xz_run_cursors: "cursors_ok st \<Longrightarrow> cursors_ok (xz_run lib n st)"
  unfolding xz_run_def by (rule funpow_invariant) (simp_all add: xz_step_cursors)

lemma xz_code_keeps_input: "stdin (xz_code lib st) = stdin st \<and> inbuf (xz_code lib st) = inbuf st"
  by (simp add: xz_code_def Let_def split: prod.splits)

lemma xz_fill_guard:
  "stdin (xz_fill st) \<noteq> stdin st \<or> inbuf (xz_fill st) \<noteq> inbuf st \<Longrightarrow> avail_in st = 0"
  by (auto simp: xz_fill_def split: if_splits)

lemma xz_reads_only_when_consumed:
  assumes "cursors_ok st"
  shows "reads_only_when_consumed (xz_step lib) st"
proof -
  have "in_pos st = length (inbuf st)"
    if "stdin (xz_step lib st) \<noteq> stdin st \<or> inbuf (xz_step lib st) \<noteq> inbuf st"
  proof -
    from that have "stdin (xz_fill st) \<noteq> stdin st \<or> inbuf (xz_fill st) \<noteq> inbuf st"
      by (auto simp: xz_step_def Let_def xz_code_keeps_input split: if_splits)
    from xz_fill_guard[OF this] assms show ?thesis
      by (simp add: avail_in_def cursors_ok_def)
  qed
  with assms show ?thesis by (auto simp: reads_only_when_consumed_def)
qed

subsection \<open>decompress\_zstd.c\<close>

lemma zstd_fill_cursors: "running (zstd_fill st) \<Longrightarrow> cursors_ok st \<Longrightarrow> cursors_ok (zstd_fill st)"
  by (auto simp: zstd_fill_def cursors_ok_def Let_def split: prod.splits if_splits dest: fread_length')

lemma zstd_fill_running: "running (zstd_fill st) \<Longrightarrow> running st"
  by (auto simp: zstd_fill_def running_def return_with_def Let_def split: prod.splits if_splits)

lemma zstd_code_cursors: "cursors_ok st \<Longrightarrow> cursors_ok (zstd_code lib st)"
  by (auto simp: zstd_code_def cursors_ok_def window_def Let_def split: prod.splits dest!: within_bounds)

lemma zstd_code_running: "running (zstd_code lib st) \<Longrightarrow> running st"
  by (auto simp: zstd_code_def running_def return_with_def Let_def split: prod.splits if_splits)

lemma zstd_step_cursors:
  assumes "running st \<longrightarrow> cursors_ok st"
  shows "running (zstd_step lib st) \<longrightarrow> cursors_ok (zstd_step lib st)"
proof (cases "running st")
  case False then show ?thesis by (simp add: zstd_step_def)
next
  case True
  with assms have c: "cursors_ok st" by simp
  show ?thesis
  proof (cases "running (zstd_fill st)")
    case False with True show ?thesis by (simp add: zstd_step_def Let_def)
  next
    case f: True
    from zstd_fill_cursors[OF f c] have "cursors_ok (zstd_code lib (zstd_fill st))"
      by (rule zstd_code_cursors)
    with True f show ?thesis by (simp add: zstd_step_def Let_def)
  qed
qed

lemma zstd_run_cursors:
  "running st \<longrightarrow> cursors_ok st \<Longrightarrow> running (zstd_run lib n st) \<longrightarrow> cursors_ok (zstd_run lib n st)"
  unfolding zstd_run_def by (rule funpow_invariant) (simp_all add: zstd_step_cursors)

lemma zstd_code_keeps_input: "stdin (zstd_code lib st) = stdin st \<and> inbuf (zstd_code lib st) = inbuf st"
  by (simp add: zstd_code_def Let_def split: prod.splits)

lemma zstd_fill_fits: "length (inbuf st) \<le> CHUNK \<Longrightarrow> length (inbuf (zstd_fill st)) \<le> CHUNK"
  by (auto simp: zstd_fill_def Let_def split: prod.splits if_splits dest: fread_length')

lemma zstd_step_fits: "length (inbuf st) \<le> CHUNK \<Longrightarrow> length (inbuf (zstd_step lib st)) \<le> CHUNK"
  by (simp add: zstd_step_def Let_def zstd_fill_fits zstd_code_keeps_input)

lemma zstd_run_fits: "length (inbuf st) \<le> CHUNK \<Longrightarrow> length (inbuf (zstd_run lib n st)) \<le> CHUNK"
  unfolding zstd_run_def by (rule funpow_invariant) (simp_all add: zstd_step_fits)

lemma zstd_step_past_read:
  assumes "running st \<longrightarrow> cursors_ok st" "running st" "running (zstd_fill st)"
  shows "cursors_ok (zstd_step lib st)"
proof -
  from assms have "cursors_ok (zstd_fill st)" by (simp add: zstd_fill_cursors)
  then have "cursors_ok (zstd_code lib (zstd_fill st))" by (rule zstd_code_cursors)
  with assms(2,3) show ?thesis by (simp add: zstd_step_def Let_def)
qed

lemma zstd_fill_guard:
  "stdin (zstd_fill st) \<noteq> stdin st \<or> inbuf (zstd_fill st) \<noteq> inbuf st \<Longrightarrow> length (inbuf st) \<le> in_pos st"
  by (auto simp: zstd_fill_def split: if_splits)

lemma zstd_reads_only_when_consumed:
  assumes "running st \<longrightarrow> cursors_ok st"
  shows "reads_only_when_consumed (zstd_step lib) st"
proof -
  have "in_pos st = length (inbuf st)"
    if "stdin (zstd_step lib st) \<noteq> stdin st \<or> inbuf (zstd_step lib st) \<noteq> inbuf st"
  proof -
    from that have r: "running st" by (auto simp: zstd_step_def split: if_splits)
    from that have "stdin (zstd_fill st) \<noteq> stdin st \<or> inbuf (zstd_fill st) \<noteq> inbuf st"
      by (auto simp: zstd_step_def Let_def zstd_code_keeps_input split: if_splits)
    from zstd_fill_guard[OF this] assms r show ?thesis
      by (simp add: cursors_ok_def)
  qed
  with assms show ?thesis by (auto simp: reads_only_when_consumed_def)
qed


subsection \<open>embedded/temsxz.c\<close>

lemma emb_fill_cursors: "cursors_ok st \<Longrightarrow> cursors_ok (emb_fill st)"
  by (auto simp: emb_fill_def cursors_ok_def Let_def split: prod.splits dest: fread_length')

lemma emb_run_dec_cursors: "cursors_ok st \<Longrightarrow> cursors_ok (fst (emb_run_dec lib st))"
  by (auto simp: emb_run_dec_def cursors_ok_def window_def split: prod.splits dest!: within_bounds)

lemma emb_write_cursors: "cursors_ok (emb_write st) = cursors_ok st"
  by (simp add: emb_write_def cursors_ok_def split: prod.splits)

lemma emb_end_cursors: "cursors_ok (emb_end ret st) = cursors_ok st"
  by (simp add: emb_end_def)

lemma emb_step_cursors: "cursors_ok st \<Longrightarrow> cursors_ok (emb_step lib st)"
  using emb_run_dec_cursors[OF emb_fill_cursors, of st lib]
  by (simp add: emb_step_def Let_def emb_fill_cursors emb_write_cursors emb_end_cursors
      case_prod_beta)

lemma emb_run_cursors: "cursors_ok st \<Longrightarrow> cursors_ok (emb_run lib n st)"
  unfolding emb_run_def by (rule funpow_invariant) (simp_all add: emb_step_cursors)

lemma emb_after_fill_keeps_input:
  "stdin (fst (emb_run_dec lib st)) = stdin st \<and> inbuf (fst (emb_run_dec lib st)) = inbuf st"
  "inbuf (emb_write st) = inbuf st \<and> stdin (emb_write st) = stdin st"
  "inbuf (emb_end ret st) = inbuf st \<and> stdin (emb_end ret st) = stdin st"
  by (simp_all add: emb_run_dec_def emb_write_def emb_end_def split: prod.splits)

lemma emb_fill_guard:
  "stdin (emb_fill st) \<noteq> stdin st \<or> inbuf (emb_fill st) \<noteq> inbuf st \<Longrightarrow> in_pos st = length (inbuf st)"
  by (auto simp: emb_fill_def split: if_splits)

lemma emb_step_input:
  "stdin (emb_step lib st) = stdin (if running st then emb_fill st else st)
   \<and> inbuf (emb_step lib st) = inbuf (if running st then emb_fill st else st)"
  using emb_after_fill_keeps_input(1)[of lib "emb_fill st"]
  by (simp add: emb_step_def Let_def emb_after_fill_keeps_input(2,3) case_prod_beta)

lemma emb_reads_only_when_consumed:
  assumes "cursors_ok st"
  shows "reads_only_when_consumed (emb_step lib) st"
  using assms emb_fill_guard[of st]
  by (auto simp: reads_only_when_consumed_def emb_step_input split: if_splits)

subsection \<open>temsxz.c\<close>

lemma tems_fill_cursors: "cursors_ok st \<Longrightarrow> cursors_ok (tems_fill st)"
  by (auto simp: tems_fill_def cursors_ok_def Let_def split: prod.splits dest: fread_length')

lemma tems_code_cursors: "cursors_ok st \<Longrightarrow> cursors_ok (fst (tems_code lib st))"
  by (auto simp: tems_code_def cursors_ok_def window_def split: prod.splits dest!: within_bounds)

lemma tems_write_cursors: "cursors_ok (tems_write ret st) = cursors_ok st"
  by (simp add: tems_write_def cursors_ok_def Let_def split: prod.splits)

lemma tems_end_cursors: "cursors_ok (tems_end ret st) = cursors_ok st"
  by (simp add: tems_end_def)

lemma tems_step_cursors: "cursors_ok st \<Longrightarrow> cursors_ok (tems_step lib st)"
  using tems_code_cursors[OF tems_fill_cursors, of st lib]
  by (simp add: tems_step_def Let_def tems_fill_cursors tems_write_cursors tems_end_cursors
      case_prod_beta)

lemma tems_run_cursors: "cursors_ok st \<Longrightarrow> cursors_ok (tems_run lib n st)"
  unfolding tems_run_def by (rule funpow_invariant) (simp_all add: tems_step_cursors)

lemma tems_after_fill_keeps_input:
  "stdin (fst (tems_code lib st)) = stdin st \<and> inbuf (fst (tems_code lib st)) = inbuf st"
  "inbuf (tems_write ret st) = inbuf st \<and> stdin (tems_write ret st) = stdin st"
  "inbuf (tems_end ret st) = inbuf st \<and> stdin (tems_end ret st) = stdin st"
  by (simp_all add: tems_code_def tems_write_def tems_end_def Let_def split: prod.splits)

lemma tems_fill_guard:
  "stdin (tems_fill st) \<noteq> stdin st \<or> inbuf (tems_fill st) \<noteq> inbuf st \<Longrightarrow> avail_in st = 0"
  by (auto simp: tems_fill_def split: if_splits)

lemma tems_step_input:
  "stdin (tems_step lib st) = stdin (if running st then tems_fill st else st)
   \<and> inbuf (tems_step lib st) = inbuf (if running st then tems_fill st else st)"
  using tems_after_fill_keeps_input(1)[of lib "tems_fill st"]
  by (simp add: tems_step_def Let_def tems_after_fill_keeps_input(2,3) case_prod_beta)

lemma tems_reads_only_when_consumed:
  assumes "cursors_ok st"
  shows "reads_only_when_consumed (tems_step lib) st"
  using assms tems_fill_guard[of st]
  by (auto simp: reads_only_when_consumed_def tems_step_input avail_in_def cursors_ok_def split: if_splits)

section \<open>The finish action\<close>

lemma chunk_pos: "0 < CHUNK" by (simp add: CHUNK_def)

lemma funpow_stuck: "f x = x \<Longrightarrow> (f ^^ n) x = x"
  by (induction n) auto

subsection \<open>decompress\_xz.c\<close>

lemma xz_fill_running: "running (xz_fill st) \<Longrightarrow> running st"
  by (auto simp: xz_fill_def running_def Let_def split: prod.splits if_splits)

lemma xz_fill_finishing: "finishing st \<Longrightarrow> finishing (xz_fill st)"
  by (simp add: finishing_def xz_fill_def Let_def running_def return_with_def split: prod.splits)

lemma xz_code_action: "action (xz_code lib st) = action st"
  by (simp add: xz_code_def Let_def split: prod.splits)

lemma xz_step_finishing': "finishing (xz_fill st) \<Longrightarrow> running st \<Longrightarrow> finishing (xz_step lib st)"
  by (auto simp: xz_step_def Let_def finishing_def xz_code_action)

lemma xz_empty_read_finishing:
  assumes "running st" "avail_in st = 0" "fst (fread CHUNK (stdin st)) = []"
  shows "finishing (xz_fill st)"
proof -
  obtain bs g where fr: "fread CHUNK (stdin st) = (bs, g)" by (cases "fread CHUNK (stdin st)")
  with assms(3) have "bs = []" by simp
  with assms(2) fr show ?thesis
    by (simp add: finishing_def xz_fill_def Let_def running_def return_with_def)
qed

subsection \<open>temsxz.c\<close>

lemma tems_fill_running: "running (tems_fill st) \<Longrightarrow> running st"
  by (auto simp: tems_fill_def running_def Let_def split: prod.splits if_splits)

lemma tems_fill_finishing: "finishing st \<Longrightarrow> finishing (tems_fill st)"
  by (simp add: finishing_def tems_fill_def Let_def running_def return_with_def split: prod.splits)

lemma tems_after_fill_action:
  "action (fst (tems_code lib st)) = action st"
  "action (tems_write ret st) = action st"
  "action (tems_end ret st) = action st"
  by (simp_all add: tems_code_def tems_write_def tems_end_def Let_def split: prod.splits)

lemma tems_step_action: "running st \<Longrightarrow> running (tems_fill st) \<Longrightarrow> action (tems_step lib st) = action (tems_fill st)"
  by (simp add: tems_step_def Let_def case_prod_beta tems_after_fill_action)

lemma tems_step_finishing': "finishing (tems_fill st) \<Longrightarrow> running st \<Longrightarrow> finishing (tems_step lib st)"
proof (cases "running (tems_fill st)")
  case True
  assume "finishing (tems_fill st)" "running st"
  with True tems_step_action[of st lib] show ?thesis by (simp add: finishing_def)
next
  case False
  assume "running st"
  with False show ?thesis by (simp add: tems_step_def Let_def finishing_def)
qed

lemma tems_empty_read_finishing:
  assumes "running st" "avail_in st = 0" "\<not> feof (stdin st)" "fst (fread CHUNK (stdin st)) = []"
  shows "finishing (tems_fill st)"
proof -
  obtain bs g where fr: "fread CHUNK (stdin st) = (bs, g)" by (cases "fread CHUNK (stdin st)")
  with assms(4) have "bs = []" by simp
  with fread_empty[OF chunk_pos assms(3)] fr have "feof g \<or> ferror g" by simp
  with assms(2,3) fr show ?thesis
    by (auto simp: finishing_def tems_fill_def Let_def)
qed

subsection \<open>A recording engine does not change the run\<close>

lemma recording_code:
  "within w n (lzma_code (recording lib) el a w n)
     = (case within w n (lzma_code lib (fst el) a w n) of (e', c, p, r) \<Rightarrow> ((e', snd el @ [a]), c, p, r))"
  by (simp add: recording_def within_def split: prod.splits)

lemma forget_fields [simp]:
  "stdin (forget st) = stdin st" "stdout (forget st) = stdout st" "stderr (forget st) = stderr st"
  "exit_status (forget st) = exit_status st" "inbuf (forget st) = inbuf st" "in_pos (forget st) = in_pos st"
  "outbuf (forget st) = outbuf st" "avail_out (forget st) = avail_out st"
  "engine (forget st) = fst (engine st)" "action (forget st) = action st"
  "compress_mode (forget st) = compress_mode st" "refill (forget st) = refill st"
  by (simp_all add: forget_def)

lemma forget_derived [simp]:
  "running (forget st) = running st" "avail_in (forget st) = avail_in st" "window (forget st) = window st"
  by (simp_all add: running_def avail_in_def window_def)

lemma forget_xz_fill: "forget (xz_fill st) = xz_fill (forget st)"
  by (simp add: xz_fill_def forget_def avail_in_def return_with_def Let_def split: prod.splits)

lemma forget_xz_code: "forget (xz_code (recording lib) st) = xz_code lib (forget st)"
  by (simp add: xz_code_def recording_code forget_def window_def return_with_def Let_def split: prod.splits)

lemma forget_xz_step: "forget (xz_step (recording lib) st) = xz_step lib (forget st)"
  by (simp add: xz_step_def Let_def forget_xz_fill[symmetric] forget_xz_code[symmetric])

lemma forget_xz_run: "forget (xz_run (recording lib) m st) = xz_run lib m (forget st)"
  by (induction m) (simp_all add: xz_run_def forget_xz_step)

lemma forget_tems_fill: "forget (tems_fill st) = tems_fill (forget st)"
  by (simp add: tems_fill_def forget_def avail_in_def return_with_def Let_def split: prod.splits)

lemma forget_tems_code:
  "fst (tems_code lib (forget st)) = forget (fst (tems_code (recording lib) st))"
  "snd (tems_code lib (forget st)) = snd (tems_code (recording lib) st)"
  by (simp_all add: tems_code_def recording_code forget_def window_def split: prod.splits)

lemma forget_tems_write: "forget (tems_write ret st) = tems_write ret (forget st)"
  by (simp add: tems_write_def forget_def return_with_def Let_def split: prod.splits)

lemma forget_tems_end: "forget (tems_end ret st) = tems_end ret (forget st)"
  by (simp add: tems_end_def forget_def return_with_def)

lemma forget_tems_step: "forget (tems_step (recording lib) st) = tems_step lib (forget st)"
  by (simp add: tems_step_def Let_def case_prod_beta forget_tems_fill[symmetric] forget_tems_code
      forget_tems_write[symmetric] forget_tems_end[symmetric])

lemma forget_tems_run: "forget (tems_run (recording lib) m st) = tems_run lib m (forget st)"
  by (induction m) (simp_all add: tems_run_def forget_tems_step)

subsection \<open>The log of a recording engine\<close>

lemma xz_fill_log: "actions_given (xz_fill st) = actions_given st"
  by (simp add: xz_fill_def actions_given_def return_with_def Let_def split: prod.splits)

lemma xz_code_log: "actions_given (xz_code (recording lib) st) = actions_given st @ [action st]"
  by (simp add: xz_code_def recording_code actions_given_def return_with_def Let_def split: prod.splits)

lemma xz_step_log:
  "actions_given (xz_step (recording lib) st)
     = actions_given st @ (if running st \<and> running (xz_fill st) then [action (xz_fill st)] else [])"
  by (simp add: xz_step_def Let_def xz_code_log xz_fill_log)

lemma tems_fill_log: "actions_given (tems_fill st) = actions_given st"
  by (simp add: tems_fill_def actions_given_def return_with_def Let_def split: prod.splits)

lemma tems_code_log: "actions_given (fst (tems_code (recording lib) st)) = actions_given st @ [action st]"
  by (simp add: tems_code_def recording_code actions_given_def split: prod.splits)

lemma tems_write_log: "actions_given (tems_write ret st) = actions_given st"
  by (simp add: tems_write_def actions_given_def return_with_def Let_def split: prod.splits)

lemma tems_end_log: "actions_given (tems_end ret st) = actions_given st"
  by (simp add: tems_end_def actions_given_def return_with_def)

lemma tems_step_log:
  "actions_given (tems_step (recording lib) st)
     = actions_given st @ (if running st \<and> running (tems_fill st) then [action (tems_fill st)] else [])"
  by (simp add: tems_step_def Let_def case_prod_beta tems_code_log tems_fill_log tems_write_log tems_end_log)

lemma xz_step_log_finishing:
  assumes "finishing (xz_fill st)"
  shows "\<exists>k\<le>1. actions_given (xz_step (recording lib) st) = actions_given st @ replicate k LZMA_FINISH"
proof (cases "running st \<and> running (xz_fill st)")
  case True
  with assms have "action (xz_fill st) = LZMA_FINISH" by (simp add: finishing_def)
  with True have "actions_given (xz_step (recording lib) st) = actions_given st @ replicate 1 LZMA_FINISH"
    by (simp add: xz_step_log)
  then show ?thesis by blast
next
  case False
  then have "actions_given (xz_step (recording lib) st) = actions_given st @ replicate 0 LZMA_FINISH"
    by (simp add: xz_step_log)
  then show ?thesis by blast
qed

lemma xz_run_log_finishing:
  "finishing (xz_fill st) \<Longrightarrow>
   \<exists>k\<le>m. actions_given (xz_run (recording lib) m st) = actions_given st @ replicate k LZMA_FINISH"
proof (induction m arbitrary: st)
  case 0
  then show ?case by (simp add: xz_run_def)
next
  case (Suc m)
  from xz_step_log_finishing[OF Suc.prems, of lib] obtain j where
    j: "j \<le> 1" "actions_given (xz_step (recording lib) st) = actions_given st @ replicate j LZMA_FINISH"
    by blast
  have "finishing (xz_step (recording lib) st)"
  proof (cases "running st")
    case True with Suc.prems show ?thesis by (rule xz_step_finishing')
  next
    case False then show ?thesis by (simp add: xz_step_def finishing_def)
  qed
  then have "finishing (xz_fill (xz_step (recording lib) st))" by (rule xz_fill_finishing)
  from Suc.IH[OF this] obtain k where
    k: "k \<le> m" "actions_given (xz_run (recording lib) m (xz_step (recording lib) st))
          = actions_given (xz_step (recording lib) st) @ replicate k LZMA_FINISH"
    by blast
  have "xz_run (recording lib) (Suc m) st = xz_run (recording lib) m (xz_step (recording lib) st)"
    by (simp add: xz_run_def funpow_swap1)
  with j k have "j + k \<le> Suc m \<and> actions_given (xz_run (recording lib) (Suc m) st)
      = actions_given st @ replicate (j + k) LZMA_FINISH"
    by (simp add: replicate_add)
  then show ?case by blast
qed

lemma tems_step_log_finishing:
  assumes "finishing (tems_fill st)"
  shows "\<exists>k\<le>1. actions_given (tems_step (recording lib) st) = actions_given st @ replicate k LZMA_FINISH"
proof (cases "running st \<and> running (tems_fill st)")
  case True
  with assms have "action (tems_fill st) = LZMA_FINISH" by (simp add: finishing_def)
  with True have "actions_given (tems_step (recording lib) st) = actions_given st @ replicate 1 LZMA_FINISH"
    by (simp add: tems_step_log)
  then show ?thesis by blast
next
  case False
  then have "actions_given (tems_step (recording lib) st) = actions_given st @ replicate 0 LZMA_FINISH"
    by (simp add: tems_step_log)
  then show ?thesis by blast
qed

lemma tems_run_log_finishing:
  "finishing (tems_fill st) \<Longrightarrow>
   \<exists>k\<le>m. actions_given (tems_run (recording lib) m st) = actions_given st @ replicate k LZMA_FINISH"
proof (induction m arbitrary: st)
  case 0
  then show ?case by (simp add: tems_run_def)
next
  case (Suc m)
  from tems_step_log_finishing[OF Suc.prems, of lib] obtain j where
    j: "j \<le> 1" "actions_given (tems_step (recording lib) st) = actions_given st @ replicate j LZMA_FINISH"
    by blast
  have "finishing (tems_step (recording lib) st)"
  proof (cases "running st")
    case True with Suc.prems show ?thesis by (rule tems_step_finishing')
  next
    case False then show ?thesis by (simp add: tems_step_def finishing_def)
  qed
  then have "finishing (tems_fill (tems_step (recording lib) st))" by (rule tems_fill_finishing)
  from Suc.IH[OF this] obtain k where
    k: "k \<le> m" "actions_given (tems_run (recording lib) m (tems_step (recording lib) st))
          = actions_given (tems_step (recording lib) st) @ replicate k LZMA_FINISH"
    by blast
  have "tems_run (recording lib) (Suc m) st = tems_run (recording lib) m (tems_step (recording lib) st)"
    by (simp add: tems_run_def funpow_swap1)
  with j k have "j + k \<le> Suc m \<and> actions_given (tems_run (recording lib) (Suc m) st)
      = actions_given st @ replicate (j + k) LZMA_FINISH"
    by (simp add: replicate_add)
  then show ?case by blast
qed

section \<open>The end of a Zstandard frame\<close>

lemma zstd_step_stopped: "\<not> running st \<Longrightarrow> zstd_step lib st = st"
  by (simp add: zstd_step_def)

lemma zstd_run_stopped: "\<not> running st \<Longrightarrow> zstd_run lib m st = st"
  unfolding zstd_run_def by (induction m) (simp_all add: zstd_step_stopped)

lemma zstd_frame_end:
  assumes r: "running st" and rf: "running (zstd_fill st)"
    and call: "ZSTD_decompressStream lib (engine (zstd_fill st)) (window (zstd_fill st)) CHUNK
                 = (e, c, p, ZSTD_hint 0)"
    and wr: "\<not> oerror (snd (fwrite (take CHUNK p) (stdout st)))"
  shows "exit_status (zstd_step lib st) = Some 0"
    and "stderr (zstd_step lib st) = stderr st"
    and "written (stdout (zstd_step lib st)) = written (stdout st) @ take CHUNK p"
    and "stdin (zstd_step lib st) = stdin (zstd_fill st)"
    and "window (zstd_step lib st) = drop (min c (length (window (zstd_fill st)))) (window (zstd_fill st))"
    and "zstd_run lib m (zstd_step lib st) = zstd_step lib st"
proof -
  have so: "stdout (zstd_fill st) = stdout st" and se: "stderr (zstd_fill st) = stderr st"
    using rf by (auto simp: zstd_fill_def Let_def running_def return_with_def split: prod.splits if_splits)
  obtain k g where fw: "fwrite (take CHUNK p) (stdout st) = (k, g)"
    by (cases "fwrite (take CHUNK p) (stdout st)")
  with wr have ng: "\<not> oerror g" by simp
  from fwrite_cases[OF fw] ng have wg: "written g = written (stdout st) @ take CHUNK p" by auto
  have step: "zstd_step lib st =
      return_with 0 [] ((zstd_fill st)\<lparr>engine := e,
         in_pos := in_pos (zstd_fill st) + min c (length (window (zstd_fill st))), stdout := g\<rparr>)"
    using r rf call fw ng so
    by (simp add: zstd_step_def zstd_code_def Let_def within_def ZSTD_isError_def)
  show "exit_status (zstd_step lib st) = Some 0" by (simp add: step)
  show "stderr (zstd_step lib st) = stderr st" by (simp add: step se)
  show "written (stdout (zstd_step lib st)) = written (stdout st) @ take CHUNK p" by (simp add: step wg)
  show "stdin (zstd_step lib st) = stdin (zstd_fill st)" by (simp add: step)
  show "window (zstd_step lib st) = drop (min c (length (window (zstd_fill st)))) (window (zstd_fill st))"
    by (simp add: step window_def add.commute)
  have "\<not> running (zstd_step lib st)" by (simp add: step)
  then show "zstd_run lib m (zstd_step lib st) = zstd_step lib st" by (rule zstd_run_stopped)
qed

section \<open>The output buffer\<close>



lemma tems_fill_stderr: "running (tems_fill st) \<Longrightarrow> stderr (tems_fill st) = stderr st"
  by (auto simp: tems_fill_def Let_def running_def return_with_def split: prod.splits if_splits)












section \<open>The pieces of the input\<close>

lemma same_bytes_stdin_of:
  "concat cs = concat ds \<Longrightarrow> same_bytes (stdin_of (map Bytes cs)) (stdin_of (map Bytes ds))"
  by (auto simp: same_bytes_def stdin_of_def)

lemma same_bytes_flags: "same_bytes f g \<Longrightarrow> feof f = feof g \<and> ferror f = ferror g"
  by (simp add: same_bytes_def)

lemma fread_same_bytes':
  assumes "same_bytes f g"
  obtains bs f' g' where "fread n f = (bs, f')" "fread n g = (bs, g')" "same_bytes f' g'"
  using fread_same_bytes[OF assms, of n] by (cases "fread n f"; cases "fread n g") auto

lemma running_stdin [simp]: "running (st\<lparr>stdin := g\<rparr>) = running st"
  by (simp add: running_def)

lemma avail_in_stdin [simp]: "avail_in (st\<lparr>stdin := g\<rparr>) = avail_in st"
  by (simp add: avail_in_def)

lemma window_stdin [simp]: "window (st\<lparr>stdin := g\<rparr>) = window st"
  by (simp add: window_def)

lemma return_with_stdin [simp]: "return_with c ds (st\<lparr>stdin := g\<rparr>) = (return_with c ds st)\<lparr>stdin := g\<rparr>"
  by (simp add: return_with_def)

subsection \<open>temsxz.c\<close>

lemma tems_fill_same:
  assumes "same_bytes (stdin s) g"
  shows "\<exists>g'. tems_fill (s\<lparr>stdin := g\<rparr>) = (tems_fill s)\<lparr>stdin := g'\<rparr> \<and> same_bytes (stdin (tems_fill s)) g'"
proof (cases "avail_in s = 0 \<and> \<not> feof (stdin s)")
  case False
  with assms same_bytes_flags[OF assms] show ?thesis
    by (intro exI[of _ g]) (auto simp: tems_fill_def)
next
  case True
  from assms obtain bs f' g' where fr: "fread CHUNK (stdin s) = (bs, f')" "fread CHUNK g = (bs, g')"
    and sb: "same_bytes f' g'" by (rule fread_same_bytes')
  from same_bytes_flags[OF sb] same_bytes_flags[OF assms] True fr sb show ?thesis
    by (intro exI[of _ g']) (simp add: tems_fill_def Let_def)
qed

lemma tems_code_stdin: "tems_code lib (s\<lparr>stdin := g\<rparr>) = ((fst (tems_code lib s))\<lparr>stdin := g\<rparr>, snd (tems_code lib s))"
  by (simp add: tems_code_def split: prod.splits)

lemma tems_write_stdin: "tems_write ret (s\<lparr>stdin := g\<rparr>) = (tems_write ret s)\<lparr>stdin := g\<rparr>"
  by (simp add: tems_write_def Let_def split: prod.splits)

lemma tems_end_stdin: "tems_end ret (s\<lparr>stdin := g\<rparr>) = (tems_end ret s)\<lparr>stdin := g\<rparr>"
  by (simp add: tems_end_def)

lemma tems_after_fill_stdin:
  "stdin (fst (tems_code lib s)) = stdin s" "stdin (tems_write ret s) = stdin s" "stdin (tems_end ret s) = stdin s"
  by (simp_all add: tems_code_def tems_write_def tems_end_def Let_def split: prod.splits)

lemma tems_step_same:
  assumes "same_bytes (stdin s) g"
  shows "\<exists>g'. tems_step lib (s\<lparr>stdin := g\<rparr>) = (tems_step lib s)\<lparr>stdin := g'\<rparr> \<and> same_bytes (stdin (tems_step lib s)) g'"
proof (cases "running s")
  case False
  with assms show ?thesis by (intro exI[of _ g]) (simp add: tems_step_def)
next
  case True
  from tems_fill_same[OF assms] obtain g' where
    f: "tems_fill (s\<lparr>stdin := g\<rparr>) = (tems_fill s)\<lparr>stdin := g'\<rparr>" and sb: "same_bytes (stdin (tems_fill s)) g'"
    by blast
  show ?thesis
  proof (cases "running (tems_fill s)")
    case False
    with True f sb show ?thesis by (intro exI[of _ g']) (simp add: tems_step_def Let_def)
  next
    case rf: True
    have "tems_step lib (s\<lparr>stdin := g\<rparr>) = (tems_step lib s)\<lparr>stdin := g'\<rparr>"
      using True rf f
      by (simp add: tems_step_def Let_def tems_code_stdin tems_write_stdin tems_end_stdin case_prod_beta)
    moreover have "stdin (tems_step lib s) = stdin (tems_fill s)"
      using True rf by (simp add: tems_step_def Let_def case_prod_beta tems_after_fill_stdin)
    ultimately show ?thesis using sb by (intro exI[of _ g']) simp
  qed
qed

lemma tems_run_same:
  assumes "same_bytes (stdin s) g"
  shows "\<exists>g'. tems_run lib n (s\<lparr>stdin := g\<rparr>) = (tems_run lib n s)\<lparr>stdin := g'\<rparr> \<and> same_bytes (stdin (tems_run lib n s)) g'"
proof (induction n)
  case 0
  with assms show ?case by (intro exI[of _ g]) (simp add: tems_run_def)
next
  case (Suc n)
  then obtain g' where r: "tems_run lib n (s\<lparr>stdin := g\<rparr>) = (tems_run lib n s)\<lparr>stdin := g'\<rparr>"
    and sb: "same_bytes (stdin (tems_run lib n s)) g'" by blast
  from tems_step_same[OF sb, of lib] obtain g'' where
    "tems_step lib ((tems_run lib n s)\<lparr>stdin := g'\<rparr>) = (tems_step lib (tems_run lib n s))\<lparr>stdin := g''\<rparr>"
    "same_bytes (stdin (tems_step lib (tems_run lib n s))) g''" by blast
  with r show ?case by (intro exI[of _ g'']) (simp add: tems_run_def)
qed

lemma outcome_truncate_stdin:
  "outcome (proc.truncate (st\<lparr>stdin := g\<rparr>)) = outcome (proc.truncate st)"
  by (simp add: outcome_def proc.truncate_def)

lemma start_stdin: "start e c ds i2 out = (start e c ds i1 out)\<lparr>stdin := i2\<rparr>"
  by (simp add: start_def)

lemma tems_main_same:
  assumes "concat cs1 = concat cs2"
  shows "outcome (tems_main lib argv (stdin_of (map Bytes cs1)) out n)
       = outcome (tems_main lib argv (stdin_of (map Bytes cs2)) out n)"
proof (cases "parse_args argv default_config")
  case (Inl a)
  then show ?thesis by (simp add: tems_main_def outcome_def failed_start_def split: prod.splits)
next
  case (Inr cfg)
  obtain ret e ds where ini: "tems_init lib cfg = (ret, e, ds)" by (cases "tems_init lib cfg")
  show ?thesis
  proof (cases "ret = LZMA_OK")
    case False
    with Inr ini show ?thesis by (simp add: tems_main_def tems_start_def outcome_def failed_start_def)
  next
    case True
    let ?s = "start e (direction cfg) ds (stdin_of (map Bytes cs1)) out"
    have sb: "same_bytes (stdin ?s) (stdin_of (map Bytes cs2))"
      using same_bytes_stdin_of[OF assms] by (simp add: start_def)
    from tems_run_same[OF sb, of lib n] obtain g' where
      "tems_run lib n (?s\<lparr>stdin := stdin_of (map Bytes cs2)\<rparr>) = (tems_run lib n ?s)\<lparr>stdin := g'\<rparr>" by blast
    then have "tems_run lib n (start e (direction cfg) ds (stdin_of (map Bytes cs2)) out) = (tems_run lib n ?s)\<lparr>stdin := g'\<rparr>"
      by (simp add: start_stdin[of e "direction cfg" ds "stdin_of (map Bytes cs2)" out "stdin_of (map Bytes cs1)"])
    with Inr ini True show ?thesis
      by (simp add: tems_main_def tems_start_def outcome_truncate_stdin)
  qed
qed

subsection \<open>decompress\_xz.c\<close>

lemma xz_fill_same:
  assumes "same_bytes (stdin s) g"
  shows "\<exists>g'. xz_fill (s\<lparr>stdin := g\<rparr>) = (xz_fill s)\<lparr>stdin := g'\<rparr> \<and> same_bytes (stdin (xz_fill s)) g'"
proof (cases "avail_in s = 0")
  case False
  with assms show ?thesis by (intro exI[of _ g]) (simp add: xz_fill_def)
next
  case True
  from assms obtain bs f' g' where fr: "fread CHUNK (stdin s) = (bs, f')" "fread CHUNK g = (bs, g')"
    and sb: "same_bytes f' g'" by (rule fread_same_bytes')
  from same_bytes_flags[OF sb] True fr sb show ?thesis
    by (intro exI[of _ g']) (simp add: xz_fill_def Let_def)
qed

lemma xz_code_stdin: "xz_code lib (s\<lparr>stdin := g\<rparr>) = (xz_code lib s)\<lparr>stdin := g\<rparr>"
  by (simp add: xz_code_def Let_def split: prod.splits)

lemma xz_step_same:
  assumes "same_bytes (stdin s) g"
  shows "\<exists>g'. xz_step lib (s\<lparr>stdin := g\<rparr>) = (xz_step lib s)\<lparr>stdin := g'\<rparr> \<and> same_bytes (stdin (xz_step lib s)) g'"
proof (cases "running s")
  case False
  with assms show ?thesis by (intro exI[of _ g]) (simp add: xz_step_def)
next
  case True
  from xz_fill_same[OF assms] obtain g' where
    f: "xz_fill (s\<lparr>stdin := g\<rparr>) = (xz_fill s)\<lparr>stdin := g'\<rparr>" and sb: "same_bytes (stdin (xz_fill s)) g'"
    by blast
  show ?thesis
    using True f sb xz_code_keeps_input[of lib "xz_fill s"]
    by (intro exI[of _ g']) (simp add: xz_step_def Let_def xz_code_stdin)
qed

lemma xz_run_same:
  assumes "same_bytes (stdin s) g"
  shows "\<exists>g'. xz_run lib n (s\<lparr>stdin := g\<rparr>) = (xz_run lib n s)\<lparr>stdin := g'\<rparr> \<and> same_bytes (stdin (xz_run lib n s)) g'"
proof (induction n)
  case 0
  with assms show ?case by (intro exI[of _ g]) (simp add: xz_run_def)
next
  case (Suc n)
  then obtain g' where r: "xz_run lib n (s\<lparr>stdin := g\<rparr>) = (xz_run lib n s)\<lparr>stdin := g'\<rparr>"
    and sb: "same_bytes (stdin (xz_run lib n s)) g'" by blast
  from xz_step_same[OF sb, of lib] obtain g'' where
    "xz_step lib ((xz_run lib n s)\<lparr>stdin := g'\<rparr>) = (xz_step lib (xz_run lib n s))\<lparr>stdin := g''\<rparr>"
    "same_bytes (stdin (xz_step lib (xz_run lib n s))) g''" by blast
  with r show ?case by (intro exI[of _ g'']) (simp add: xz_run_def)
qed

lemma xz_main_same:
  assumes "concat cs1 = concat cs2"
  shows "outcome (xz_main lib (stdin_of (map Bytes cs1)) out n)
       = outcome (xz_main lib (stdin_of (map Bytes cs2)) out n)"
proof -
  obtain ret e where ini: "lzma_stream_decoder lib = (ret, e)" by (cases "lzma_stream_decoder lib")
  show ?thesis
  proof (cases "ret = LZMA_OK")
    case False
    with ini show ?thesis by (simp add: xz_main_def outcome_def failed_start_def)
  next
    case True
    let ?s = "start e 0 [] (stdin_of (map Bytes cs1)) out"
    have sb: "same_bytes (stdin ?s) (stdin_of (map Bytes cs2))"
      using same_bytes_stdin_of[OF assms] by (simp add: start_def)
    from xz_run_same[OF sb, of lib n] obtain g' where
      "xz_run lib n (?s\<lparr>stdin := stdin_of (map Bytes cs2)\<rparr>) = (xz_run lib n ?s)\<lparr>stdin := g'\<rparr>" by blast
    then have "xz_run lib n (start e 0 [] (stdin_of (map Bytes cs2)) out) = (xz_run lib n ?s)\<lparr>stdin := g'\<rparr>"
      by (simp add: start_stdin[of e 0 "[]" "stdin_of (map Bytes cs2)" out "stdin_of (map Bytes cs1)"])
    with ini True show ?thesis
      by (simp add: xz_main_def outcome_truncate_stdin)
  qed
qed

subsection \<open>decompress\_gzip.c\<close>

lemma refill_stdin [simp]: "refill (st\<lparr>stdin := g\<rparr>) = refill st"
  by simp

lemma gz_fill_same:
  assumes "same_bytes (stdin s) g"
  shows "\<exists>g'. gz_fill (s\<lparr>stdin := g\<rparr>) = (gz_fill s)\<lparr>stdin := g'\<rparr> \<and> same_bytes (stdin (gz_fill s)) g'"
proof (cases "refill s")
  case False
  with assms show ?thesis by (intro exI[of _ g]) (simp add: gz_fill_def)
next
  case True
  from assms obtain bs f' g' where fr: "fread CHUNK (stdin s) = (bs, f')" "fread CHUNK g = (bs, g')"
    and sb: "same_bytes f' g'" by (rule fread_same_bytes')
  from same_bytes_flags[OF sb] True fr sb show ?thesis
    by (intro exI[of _ g']) (simp add: gz_fill_def Let_def)
qed

lemma gz_inflate_stdin: "gz_inflate lib (s\<lparr>stdin := g\<rparr>) = (gz_inflate lib s)\<lparr>stdin := g\<rparr>"
  by (simp add: gz_inflate_def Let_def split: prod.splits)

lemma gz_inflate_keeps_stdin: "stdin (gz_inflate lib s) = stdin s"
  by (simp add: gz_inflate_def Let_def split: prod.splits)

lemma gz_step_same:
  assumes "same_bytes (stdin s) g"
  shows "\<exists>g'. gz_step lib (s\<lparr>stdin := g\<rparr>) = (gz_step lib s)\<lparr>stdin := g'\<rparr> \<and> same_bytes (stdin (gz_step lib s)) g'"
proof (cases "running s")
  case False
  with assms show ?thesis by (intro exI[of _ g]) (simp add: gz_step_def)
next
  case True
  from gz_fill_same[OF assms] obtain g' where
    f: "gz_fill (s\<lparr>stdin := g\<rparr>) = (gz_fill s)\<lparr>stdin := g'\<rparr>" and sb: "same_bytes (stdin (gz_fill s)) g'"
    by blast
  show ?thesis
    using True f sb
    by (intro exI[of _ g']) (simp add: gz_step_def Let_def gz_inflate_stdin gz_inflate_keeps_stdin)
qed

lemma gz_run_same:
  assumes "same_bytes (stdin s) g"
  shows "\<exists>g'. gz_run lib n (s\<lparr>stdin := g\<rparr>) = (gz_run lib n s)\<lparr>stdin := g'\<rparr> \<and> same_bytes (stdin (gz_run lib n s)) g'"
proof (induction n)
  case 0
  with assms show ?case by (intro exI[of _ g]) (simp add: gz_run_def)
next
  case (Suc n)
  then obtain g' where r: "gz_run lib n (s\<lparr>stdin := g\<rparr>) = (gz_run lib n s)\<lparr>stdin := g'\<rparr>"
    and sb: "same_bytes (stdin (gz_run lib n s)) g'" by blast
  from gz_step_same[OF sb, of lib] obtain g'' where
    "gz_step lib ((gz_run lib n s)\<lparr>stdin := g'\<rparr>) = (gz_step lib (gz_run lib n s))\<lparr>stdin := g''\<rparr>"
    "same_bytes (stdin (gz_step lib (gz_run lib n s))) g''" by blast
  with r show ?case by (intro exI[of _ g'']) (simp add: gz_run_def)
qed

lemma gz_main_same:
  assumes "concat cs1 = concat cs2"
  shows "outcome (gz_main lib (stdin_of (map Bytes cs1)) out n)
       = outcome (gz_main lib (stdin_of (map Bytes cs2)) out n)"
proof -
  obtain ret e where ini: "inflateInit2 lib = (ret, e)" by (cases "inflateInit2 lib")
  show ?thesis
  proof (cases "ret = Z_OK")
    case False
    with ini show ?thesis by (simp add: gz_main_def outcome_def failed_start_def)
  next
    case True
    let ?s = "start e 0 [] (stdin_of (map Bytes cs1)) out"
    have sb: "same_bytes (stdin ?s) (stdin_of (map Bytes cs2))"
      using same_bytes_stdin_of[OF assms] by (simp add: start_def)
    from gz_run_same[OF sb, of lib n] obtain g' where
      "gz_run lib n (?s\<lparr>stdin := stdin_of (map Bytes cs2)\<rparr>) = (gz_run lib n ?s)\<lparr>stdin := g'\<rparr>" by blast
    then have "gz_run lib n (start e 0 [] (stdin_of (map Bytes cs2)) out) = (gz_run lib n ?s)\<lparr>stdin := g'\<rparr>"
      by (simp add: start_stdin[of e 0 "[]" "stdin_of (map Bytes cs2)" out "stdin_of (map Bytes cs1)"])
    with ini True show ?thesis
      by (simp add: gz_main_def outcome_truncate_stdin)
  qed
qed

subsection \<open>decompress\_zstd.c\<close>

lemma zstd_fill_same:
  assumes "same_bytes (stdin s) g"
  shows "\<exists>g'. zstd_fill (s\<lparr>stdin := g\<rparr>) = (zstd_fill s)\<lparr>stdin := g'\<rparr> \<and> same_bytes (stdin (zstd_fill s)) g'"
proof (cases "length (inbuf s) \<le> in_pos s")
  case False
  with assms show ?thesis by (intro exI[of _ g]) (simp add: zstd_fill_def)
next
  case True
  from assms obtain bs f' g' where fr: "fread CHUNK (stdin s) = (bs, f')" "fread CHUNK g = (bs, g')"
    and sb: "same_bytes f' g'" by (rule fread_same_bytes')
  from same_bytes_flags[OF sb] True fr sb show ?thesis
    by (intro exI[of _ g']) (simp add: zstd_fill_def Let_def)
qed

lemma zstd_code_stdin: "zstd_code lib (s\<lparr>stdin := g\<rparr>) = (zstd_code lib s)\<lparr>stdin := g\<rparr>"
  by (simp add: zstd_code_def Let_def split: prod.splits)

lemma zstd_step_same:
  assumes "same_bytes (stdin s) g"
  shows "\<exists>g'. zstd_step lib (s\<lparr>stdin := g\<rparr>) = (zstd_step lib s)\<lparr>stdin := g'\<rparr> \<and> same_bytes (stdin (zstd_step lib s)) g'"
proof (cases "running s")
  case False
  with assms show ?thesis by (intro exI[of _ g]) (simp add: zstd_step_def)
next
  case True
  from zstd_fill_same[OF assms] obtain g' where
    f: "zstd_fill (s\<lparr>stdin := g\<rparr>) = (zstd_fill s)\<lparr>stdin := g'\<rparr>" and sb: "same_bytes (stdin (zstd_fill s)) g'"
    by blast
  show ?thesis
    using True f sb zstd_code_keeps_input[of lib "zstd_fill s"]
    by (intro exI[of _ g']) (simp add: zstd_step_def Let_def zstd_code_stdin)
qed

lemma zstd_run_same:
  assumes "same_bytes (stdin s) g"
  shows "\<exists>g'. zstd_run lib n (s\<lparr>stdin := g\<rparr>) = (zstd_run lib n s)\<lparr>stdin := g'\<rparr> \<and> same_bytes (stdin (zstd_run lib n s)) g'"
proof (induction n)
  case 0
  with assms show ?case by (intro exI[of _ g]) (simp add: zstd_run_def)
next
  case (Suc n)
  then obtain g' where r: "zstd_run lib n (s\<lparr>stdin := g\<rparr>) = (zstd_run lib n s)\<lparr>stdin := g'\<rparr>"
    and sb: "same_bytes (stdin (zstd_run lib n s)) g'" by blast
  from zstd_step_same[OF sb, of lib] obtain g'' where
    "zstd_step lib ((zstd_run lib n s)\<lparr>stdin := g'\<rparr>) = (zstd_step lib (zstd_run lib n s))\<lparr>stdin := g''\<rparr>"
    "same_bytes (stdin (zstd_step lib (zstd_run lib n s))) g''" by blast
  with r show ?case by (intro exI[of _ g'']) (simp add: zstd_run_def)
qed

lemma zstd_main_same:
  assumes "concat cs1 = concat cs2"
  shows "outcome (zstd_main lib (stdin_of (map Bytes cs1)) out n)
       = outcome (zstd_main lib (stdin_of (map Bytes cs2)) out n)"
proof (cases "ZSTD_createDCtx lib")
  case None
  then show ?thesis by (simp add: zstd_main_def outcome_def failed_start_def)
next
  case (Some e)
  let ?s = "start e 0 [] (stdin_of (map Bytes cs1)) out"
  have sb: "same_bytes (stdin ?s) (stdin_of (map Bytes cs2))"
    using same_bytes_stdin_of[OF assms] by (simp add: start_def)
  from zstd_run_same[OF sb, of lib n] obtain g' where
    "zstd_run lib n (?s\<lparr>stdin := stdin_of (map Bytes cs2)\<rparr>) = (zstd_run lib n ?s)\<lparr>stdin := g'\<rparr>" by blast
  then have "zstd_run lib n (start e 0 [] (stdin_of (map Bytes cs2)) out) = (zstd_run lib n ?s)\<lparr>stdin := g'\<rparr>"
    by (simp add: start_stdin[of e 0 "[]" "stdin_of (map Bytes cs2)" out "stdin_of (map Bytes cs1)"])
  with Some show ?thesis
    by (simp add: zstd_main_def outcome_truncate_stdin)
qed

subsection \<open>embedded/temsxz.c\<close>

lemma emb_fill_same:
  assumes "same_bytes (stdin s) g"
  shows "\<exists>g'. emb_fill (s\<lparr>stdin := g\<rparr>) = (emb_fill s)\<lparr>stdin := g'\<rparr> \<and> same_bytes (stdin (emb_fill s)) g'"
proof (cases "in_pos s = length (inbuf s) \<and> \<not> feof (stdin s)")
  case False
  with assms same_bytes_flags[OF assms] show ?thesis
    by (intro exI[of _ g]) (auto simp: emb_fill_def)
next
  case True
  from assms obtain bs f' g' where fr: "fread CHUNK (stdin s) = (bs, f')" "fread CHUNK g = (bs, g')"
    and sb: "same_bytes f' g'" by (rule fread_same_bytes')
  from same_bytes_flags[OF sb] same_bytes_flags[OF assms] True fr sb show ?thesis
    by (intro exI[of _ g']) (simp add: emb_fill_def Let_def)
qed

lemma emb_run_dec_stdin:
  "emb_run_dec lib (s\<lparr>stdin := g\<rparr>) = ((fst (emb_run_dec lib s))\<lparr>stdin := g\<rparr>, snd (emb_run_dec lib s))"
  by (simp add: emb_run_dec_def split: prod.splits)

lemma emb_write_stdin: "emb_write (s\<lparr>stdin := g\<rparr>) = (emb_write s)\<lparr>stdin := g\<rparr>"
  by (simp add: emb_write_def split: prod.splits)

lemma emb_end_stdin: "feof g = feof (stdin s) \<Longrightarrow> emb_end ret (s\<lparr>stdin := g\<rparr>) = (emb_end ret s)\<lparr>stdin := g\<rparr>"
  by (simp add: emb_end_def)

lemma emb_step_same:
  assumes "same_bytes (stdin s) g"
  shows "\<exists>g'. emb_step lib (s\<lparr>stdin := g\<rparr>) = (emb_step lib s)\<lparr>stdin := g'\<rparr> \<and> same_bytes (stdin (emb_step lib s)) g'"
proof (cases "running s")
  case False
  with assms show ?thesis by (intro exI[of _ g]) (simp add: emb_step_def)
next
  case True
  from emb_fill_same[OF assms] obtain g' where
    f: "emb_fill (s\<lparr>stdin := g\<rparr>) = (emb_fill s)\<lparr>stdin := g'\<rparr>" and sb: "same_bytes (stdin (emb_fill s)) g'"
    by blast
  show ?thesis
  proof (cases "running (emb_fill s)")
    case False
    with True f sb show ?thesis by (intro exI[of _ g']) (simp add: emb_step_def Let_def)
  next
    case rf: True
    let ?w = "emb_write (fst (emb_run_dec lib (emb_fill s)))"
    have sw: "stdin ?w = stdin (emb_fill s)"
      by (simp add: emb_after_fill_keeps_input)
    with sb have fe: "feof g' = feof (stdin ?w)" using same_bytes_flags[OF sb] by simp
    have "emb_step lib (s\<lparr>stdin := g\<rparr>) = (emb_step lib s)\<lparr>stdin := g'\<rparr>"
      using True rf f emb_end_stdin[OF fe]
      by (simp add: emb_step_def Let_def emb_run_dec_stdin emb_write_stdin case_prod_beta)
    moreover have "stdin (emb_step lib s) = stdin (emb_fill s)"
      using True emb_step_input[of lib s] by simp
    ultimately show ?thesis using sb by (intro exI[of _ g']) simp
  qed
qed

lemma emb_run_same:
  assumes "same_bytes (stdin s) g"
  shows "\<exists>g'. emb_run lib n (s\<lparr>stdin := g\<rparr>) = (emb_run lib n s)\<lparr>stdin := g'\<rparr> \<and> same_bytes (stdin (emb_run lib n s)) g'"
proof (induction n)
  case 0
  with assms show ?case by (intro exI[of _ g]) (simp add: emb_run_def)
next
  case (Suc n)
  then obtain g' where r: "emb_run lib n (s\<lparr>stdin := g\<rparr>) = (emb_run lib n s)\<lparr>stdin := g'\<rparr>"
    and sb: "same_bytes (stdin (emb_run lib n s)) g'" by blast
  from emb_step_same[OF sb, of lib] obtain g'' where
    "emb_step lib ((emb_run lib n s)\<lparr>stdin := g'\<rparr>) = (emb_step lib (emb_run lib n s))\<lparr>stdin := g''\<rparr>"
    "same_bytes (stdin (emb_step lib (emb_run lib n s))) g''" by blast
  with r show ?case by (intro exI[of _ g'']) (simp add: emb_run_def)
qed

lemma emb_main_same:
  assumes "concat cs1 = concat cs2"
  shows "outcome (emb_main lib (stdin_of (map Bytes cs1)) out n)
       = outcome (emb_main lib (stdin_of (map Bytes cs2)) out n)"
proof (cases "xz_dec_init lib")
  case None
  then show ?thesis by (simp add: emb_main_def outcome_def failed_start_def)
next
  case (Some e)
  let ?s = "start e 0 [] (stdin_of (map Bytes cs1)) out"
  have sb: "same_bytes (stdin ?s) (stdin_of (map Bytes cs2))"
    using same_bytes_stdin_of[OF assms] by (simp add: start_def)
  from emb_run_same[OF sb, of lib n] obtain g' where
    "emb_run lib n (?s\<lparr>stdin := stdin_of (map Bytes cs2)\<rparr>) = (emb_run lib n ?s)\<lparr>stdin := g'\<rparr>" by blast
  then have "emb_run lib n (start e 0 [] (stdin_of (map Bytes cs2)) out) = (emb_run lib n ?s)\<lparr>stdin := g'\<rparr>"
    by (simp add: start_stdin[of e 0 "[]" "stdin_of (map Bytes cs2)" out "stdin_of (map Bytes cs1)"])
  with Some show ?thesis
    by (simp add: emb_main_def outcome_truncate_stdin)
qed

text \<open>The definitions that evaluate a run on given streams.\<close>

lemmas run_eval = xz_run_def xz_step_def xz_fill_def xz_code_def zstd_run_def zstd_step_def zstd_fill_def zstd_code_def
  emb_run_def emb_step_def emb_fill_def emb_run_dec_def emb_write_def emb_end_def
  tems_run_def tems_step_def tems_fill_def tems_code_def tems_write_def tems_end_def
  start_def running_def avail_in_def window_def within_def fread_def fwrite_def stdin_of_def stdout_with_def
  return_with_def CHUNK_def Let_def toy_lzma_def toy_body_def zt_zstd_def zt_xz_def zt_zlib_def zt_scan_def
  ZSTD_isError_def MAGIC_def gz_run_def gz_step_def gz_fill_def gz_inflate_def
  Z_OK_def Z_STREAM_END_def Z_STREAM_ERROR_def Z_DATA_ERROR_def Z_MEM_ERROR_def Z_BUF_ERROR_def

section \<open>The end of the input\<close>

lemma zstd_eof_returns_0:
  assumes "running st" "length (inbuf st) \<le> in_pos st"
    "fread CHUNK (stdin st) = ([], g)" "\<not> ferror g"
  shows "zstd_step lib st = return_with 0 [] (st\<lparr>stdin := g, inbuf := []\<rparr>)"
  using assms by (simp add: zstd_step_def zstd_fill_def Let_def)

lemma gz_stuck:
  "gz_step zt_zlib (gz_run zt_zlib (Suc (Suc 0)) (start () 0 [] (stdin_of [Bytes [65, 66]]) (stdout_with None)))
     = gz_run zt_zlib (Suc (Suc 0)) (start () 0 [] (stdin_of [Bytes [65, 66]]) (stdout_with None))"
  by (simp add: run_eval)

lemma gz_truncated_never_returns:
  "exit_status (gz_run zt_zlib n (start () 0 [] (stdin_of [Bytes [65, 66]]) (stdout_with None))) = None"
proof -
  let ?s0 = "start () 0 [] (stdin_of [Bytes [65, 66]]) (stdout_with None)"
  consider "n = 0" | "n = Suc 0" | k where "n = k + Suc (Suc 0)"
    by (metis add_Suc_right add_0_right not0_implies_Suc)
  then show ?thesis
  proof cases
    case 1 then show ?thesis by (simp add: run_eval)
  next
    case 2 then show ?thesis by (simp add: run_eval)
  next
    case 3
    have "gz_run zt_zlib n ?s0 = (gz_step zt_zlib ^^ k) (gz_run zt_zlib (Suc (Suc 0)) ?s0)"
      unfolding 3 gz_run_def by (simp only: funpow_add o_apply)
    also have "\<dots> = gz_run zt_zlib (Suc (Suc 0)) ?s0"
      by (rule funpow_stuck[of "gz_step zt_zlib" "gz_run zt_zlib (Suc (Suc 0)) ?s0" k, OF gz_stuck])
    finally show ?thesis by (simp add: run_eval)
  qed
qed

section \<open>The round trip\<close>

lemma unread_Bytes: "pending f = map Bytes cs \<Longrightarrow> unread f = concat cs"
  by (simp add: unread_def comp_def)

lemma fread_clean:
  assumes "\<not> feof f" "\<not> ferror f" "pending f = map Bytes cs"
  shows "\<exists>cs'. fread n f = (take n (concat cs),
            \<lparr>pending = map Bytes cs', feof = length (concat cs) < n, ferror = False\<rparr>)
          \<and> concat cs' = drop n (concat cs)"
  using gather_Bytes[of cs n] assms by (auto simp: fread_def)

lemma tems_fill_pump:
  assumes inv: "pump_inv lib e0 T ds st"
  shows "pump_inv lib e0 T ds (tems_fill st) \<and> todo work (tems_fill st) = todo work st
       \<and> (window (tems_fill st) \<noteq> [] \<or> action (tems_fill st) = LZMA_FINISH)"
proof -
  from inv obtain cs i fin where
    r: "running st" and se: "stderr st = ds" and ro: "room (stdout st) = None" and oo: "out_ok st"
    and ao: "0 < avail_out st" and ip: "in_pos st \<le> length (inbuf st)" and nf: "\<not> ferror (stdin st)"
    and af: "action st = LZMA_FINISH \<longleftrightarrow> feof (stdin st)"
    and pe: "pending (stdin st) = map Bytes cs" and fe: "feof (stdin st) \<longrightarrow> concat cs = []"
    and tt: "i @ window st @ concat cs = T" and fa: "fin \<longrightarrow> action st = LZMA_FINISH"
    and fd: "feeding lib e0 T (engine st) i (written (stdout st) @ outbuf st) fin"
    unfolding pump_inv_def by blast
  show ?thesis
  proof (cases "avail_in st = 0 \<and> \<not> feof (stdin st)")
    case False
    then have same: "tems_fill st = st" by (auto simp: tems_fill_def)
    have "window st \<noteq> [] \<or> action st = LZMA_FINISH"
      using False ip af by (auto simp: avail_in_def window_def)
    with inv same show ?thesis by simp
  next
    case True
    then have w0: "window st = []" using ip by (simp add: avail_in_def window_def)
    from True have ne: "\<not> feof (stdin st)" by simp
    from fread_clean[OF ne nf pe, of CHUNK] obtain cs' where
      fr: "fread CHUNK (stdin st) = (take CHUNK (concat cs),
            \<lparr>pending = map Bytes cs', feof = length (concat cs) < CHUNK, ferror = False\<rparr>)"
      and cc: "concat cs' = drop CHUNK (concat cs)" by blast
    let ?f = "\<lparr>pending = map Bytes cs', feof = length (concat cs) < CHUNK, ferror = False\<rparr>"
    let ?bs = "take CHUNK (concat cs)"
    have run: "action st = LZMA_RUN" using af ne by (cases "action st") auto
    have nfin: "\<not> fin" using fa run by auto
    have fill: "tems_fill st = st\<lparr>stdin := ?f, inbuf := ?bs, in_pos := 0,
        action := (if length (concat cs) < CHUNK then LZMA_FINISH else LZMA_RUN)\<rparr>"
      using True fr run by (simp add: tems_fill_def Let_def)
    have wn: "window (tems_fill st) = ?bs" by (simp add: fill window_def)
    have 1: "pump_inv lib e0 T ds (tems_fill st)"
      unfolding pump_inv_def
    proof (intro conjI)
      show "running (tems_fill st)" using r by (simp add: fill running_def)
      show "stderr (tems_fill st) = ds" using se by (simp add: fill)
      show "room (stdout (tems_fill st)) = None" using ro by (simp add: fill)
      show "out_ok (tems_fill st)" using oo by (simp add: fill out_ok_def)
      show "0 < avail_out (tems_fill st)" using ao by (simp add: fill)
      show "in_pos (tems_fill st) \<le> length (inbuf (tems_fill st))" by (simp add: fill)
      show "\<not> ferror (stdin (tems_fill st))" by (simp add: fill)
      show "(action (tems_fill st) = LZMA_FINISH) = feof (stdin (tems_fill st))" by (simp add: fill)
      show "\<exists>cs i fin. pending (stdin (tems_fill st)) = map Bytes cs
           \<and> (feof (stdin (tems_fill st)) \<longrightarrow> concat cs = [])
           \<and> i @ window (tems_fill st) @ concat cs = T \<and> (fin \<longrightarrow> action (tems_fill st) = LZMA_FINISH)
           \<and> feeding lib e0 T (engine (tems_fill st)) i
                (written (stdout (tems_fill st)) @ outbuf (tems_fill st)) fin"
      proof (intro exI[of _ cs'] exI[of _ i] exI[of _ fin] conjI)
        show "pending (stdin (tems_fill st)) = map Bytes cs'" by (simp add: fill)
        show "feof (stdin (tems_fill st)) \<longrightarrow> concat cs' = []" using cc by (simp add: fill)
        show "i @ window (tems_fill st) @ concat cs' = T" using tt w0 cc by (simp add: wn)
        show "fin \<longrightarrow> action (tems_fill st) = LZMA_FINISH" using nfin by simp
        show "feeding lib e0 T (engine (tems_fill st)) i
                (written (stdout (tems_fill st)) @ outbuf (tems_fill st)) fin"
          using fd by (simp add: fill)
      qed
    qed
    have 2: "todo work (tems_fill st) = todo work st"
    proof -
      have "unread (stdin (tems_fill st)) = concat cs'" by (rule unread_Bytes) (simp add: fill)
      moreover have "unread (stdin st) = concat cs" by (rule unread_Bytes[OF pe])
      moreover have "engine (tems_fill st) = engine st" by (simp add: fill)
      ultimately show ?thesis using w0 cc by (simp add: todo_def wn)
    qed
    have 3: "window (tems_fill st) \<noteq> [] \<or> action (tems_fill st) = LZMA_FINISH"
    proof (cases "concat cs = []")
      case True
      have "length (concat cs) < CHUNK" unfolding True by (simp add: CHUNK_def)
      then show ?thesis by (simp add: fill)
    next
      case False
      then show ?thesis by (simp add: wn CHUNK_def)
    qed
    from 1 2 3 show ?thesis by blast
  qed
qed

lemma tems_step_unbounded:
  assumes r: "running st" and r1: "running (tems_fill st)"
    and ro: "room (stdout (tems_fill st)) = None" and oo: "out_ok (tems_fill st)"
    and call: "within (window (tems_fill st)) (avail_out (tems_fill st))
        (lzma_code lib (engine (tems_fill st)) (action (tems_fill st)) (window (tems_fill st))
           (avail_out (tems_fill st))) = (e', c, p, ret)"
  shows "tems_step lib st =
     tems_end ret ((tems_fill st)\<lparr>
        engine := e',
        in_pos := in_pos (tems_fill st) + c,
        stdout := (if avail_out (tems_fill st) - length p = 0 \<or> ret \<noteq> LZMA_OK
                   then (stdout (tems_fill st))\<lparr>written := written (stdout (tems_fill st)) @ outbuf (tems_fill st) @ p\<rparr>
                   else stdout (tems_fill st)),
        outbuf := (if avail_out (tems_fill st) - length p = 0 \<or> ret \<noteq> LZMA_OK then [] else outbuf (tems_fill st) @ p),
        avail_out := (if avail_out (tems_fill st) - length p = 0 \<or> ret \<noteq> LZMA_OK then CHUNK
                      else avail_out (tems_fill st) - length p)\<rparr>)"
proof -
  let ?s1 = "tems_fill st"
  let ?s2 = "?s1\<lparr>engine := e', in_pos := in_pos ?s1 + c, outbuf := outbuf ?s1 @ p,
                 avail_out := avail_out ?s1 - length p\<rparr>"
  have code: "tems_code lib ?s1 = (?s2, ret)" using call by (simp add: tems_code_def)
  have lp: "length p \<le> avail_out ?s1" using within_bounds[OF call] by simp
  have ws: "CHUNK - (avail_out ?s1 - length p) = length (outbuf ?s1 @ p)"
    using oo lp by (simp add: out_ok_def)
  have r2: "running ?s2" using r1 by (simp add: running_def)
  have wr: "tems_write ret ?s2 =
     ?s2\<lparr>stdout := (if avail_out ?s1 - length p = 0 \<or> ret \<noteq> LZMA_OK
                   then (stdout ?s1)\<lparr>written := written (stdout ?s1) @ outbuf ?s1 @ p\<rparr>
                   else stdout ?s1),
         outbuf := (if avail_out ?s1 - length p = 0 \<or> ret \<noteq> LZMA_OK then [] else outbuf ?s1 @ p),
         avail_out := (if avail_out ?s1 - length p = 0 \<or> ret \<noteq> LZMA_OK then CHUNK
                      else avail_out ?s1 - length p)\<rparr>"
  proof (cases "avail_out ?s1 - length p = 0 \<or> ret \<noteq> LZMA_OK")
    case False
    then show ?thesis by (simp add: tems_write_def)
  next
    case True
    show ?thesis
    proof (cases "outbuf ?s1 @ p = []")
      case e: True
      with True ws show ?thesis by (simp add: tems_write_def Let_def)
    next
      case ne: False
      then have "0 < length (outbuf ?s1 @ p)" by simp
      with True ws ro show ?thesis
        by (simp add: tems_write_def Let_def fwrite_def)
    qed
  qed
  have rw: "running (tems_write ret ?s2)" using r2 by (simp add: wr running_def)
  show ?thesis
    using r r1 rw by (simp add: tems_step_def Let_def code wr)
qed

lemma tems_step_pump:
  assumes tr: "transforms lib e0 work T R" and inv: "pump_inv lib e0 T ds st"
  shows "(exit_status (tems_step lib st) = Some 0 \<and> written (stdout (tems_step lib st)) = R
            \<and> stderr (tems_step lib st) = ds)
       \<or> (pump_inv lib e0 T ds (tems_step lib st)
          \<and> (todo work (tems_step lib st), todo work st) \<in> less_than <*lex*> less_than)"
proof -
  let ?s1 = "tems_fill st"
  from tems_fill_pump[OF inv, of work] have inv1: "pump_inv lib e0 T ds ?s1"
    and td: "todo work ?s1 = todo work st"
    and ne: "window ?s1 \<noteq> [] \<or> action ?s1 = LZMA_FINISH" by blast+
  from inv have r: "running st" by (simp add: pump_inv_def)
  from inv1 obtain cs i fin where
    r1: "running ?s1" and se: "stderr ?s1 = ds" and ro: "room (stdout ?s1) = None" and oo: "out_ok ?s1"
    and ao: "0 < avail_out ?s1" and ip: "in_pos ?s1 \<le> length (inbuf ?s1)" and nf: "\<not> ferror (stdin ?s1)"
    and af: "action ?s1 = LZMA_FINISH \<longleftrightarrow> feof (stdin ?s1)"
    and pe: "pending (stdin ?s1) = map Bytes cs" and fe: "feof (stdin ?s1) \<longrightarrow> concat cs = []"
    and tt: "i @ window ?s1 @ concat cs = T" and fa: "fin \<longrightarrow> action ?s1 = LZMA_FINISH"
    and fd: "feeding lib e0 T (engine ?s1) i (written (stdout ?s1) @ outbuf ?s1) fin"
    unfolding pump_inv_def by blast
  obtain e' c p ret where call:
    "within (window ?s1) (avail_out ?s1)
       (lzma_code lib (engine ?s1) (action ?s1) (window ?s1) (avail_out ?s1)) = (e', c, p, ret)"
    by (rule prod_cases4)
  from within_bounds[OF call] have cw: "c \<le> length (window ?s1)" and lp: "length p \<le> avail_out ?s1"
    by simp_all
  have proper: "action ?s1 = LZMA_FINISH \<longrightarrow> concat cs = []" using af fe by simp
  from tr have contract:
    "(ret = LZMA_OK \<or> ret = LZMA_STREAM_END)
     \<and> (ret = LZMA_STREAM_END \<longrightarrow> (written (stdout ?s1) @ outbuf ?s1) @ p = R)
     \<and> (ret = LZMA_OK \<longrightarrow> 0 < c \<or> work e' < work (engine ?s1))"
    unfolding transforms_def using fd ao tt ne proper fa call by blast
  note step = tems_step_unbounded[OF r r1 ro oo call]
  show ?thesis
  proof (cases "ret = LZMA_STREAM_END")
    case True
    with contract have "written (stdout ?s1) @ outbuf ?s1 @ p = R" by simp
    with True se show ?thesis by (simp add: step tems_end_def)
  next
    case False
    with contract have ok: "ret = LZMA_OK" by simp
    let ?F = "avail_out ?s1 - length p = 0"
    let ?s' = "?s1\<lparr>engine := e', in_pos := in_pos ?s1 + c,
        stdout := (if ?F then (stdout ?s1)\<lparr>written := written (stdout ?s1) @ outbuf ?s1 @ p\<rparr> else stdout ?s1),
        outbuf := (if ?F then [] else outbuf ?s1 @ p),
        avail_out := (if ?F then CHUNK else avail_out ?s1 - length p)\<rparr>"
    have st': "tems_step lib st = ?s'" using ok by (simp add: step tems_end_def)
    have win: "window ?s' = drop c (window ?s1)" by (simp add: window_def add.commute)
    have outp: "written (stdout ?s') @ outbuf ?s' = (written (stdout ?s1) @ outbuf ?s1) @ p" by simp
    have fd': "feeding lib e0 T e' (i @ take c (window ?s1)) ((written (stdout ?s1) @ outbuf ?s1) @ p)
                 (action ?s1 = LZMA_FINISH)"
      using feeding_call[OF fd ao tt ne proper fa] call ok by simp
    have inv': "pump_inv lib e0 T ds ?s'"
      unfolding pump_inv_def
    proof (intro conjI)
      show "running ?s'" using r1 by (simp add: running_def)
      show "stderr ?s' = ds" using se by simp
      show "room (stdout ?s') = None" using ro by simp
      show "out_ok ?s'" using oo lp by (simp add: out_ok_def CHUNK_def)
      show "0 < avail_out ?s'" by (simp add: CHUNK_def)
      show "in_pos ?s' \<le> length (inbuf ?s')" using cw ip by (simp add: window_def)
      show "\<not> ferror (stdin ?s')" using nf by simp
      show "(action ?s' = LZMA_FINISH) = feof (stdin ?s')" using af by simp
      show "\<exists>cs i fin. pending (stdin ?s') = map Bytes cs \<and> (feof (stdin ?s') \<longrightarrow> concat cs = [])
           \<and> i @ window ?s' @ concat cs = T \<and> (fin \<longrightarrow> action ?s' = LZMA_FINISH)
           \<and> feeding lib e0 T (engine ?s') i (written (stdout ?s') @ outbuf ?s') fin"
      proof (intro exI[of _ cs] exI[of _ "i @ take c (window ?s1)"] exI[of _ "action ?s1 = LZMA_FINISH"] conjI)
        show "pending (stdin ?s') = map Bytes cs" using pe by simp
        show "feof (stdin ?s') \<longrightarrow> concat cs = []" using fe by simp
        have e: "take c (window ?s1) @ drop c (window ?s1) @ concat cs = window ?s1 @ concat cs"
          by (simp only: append_assoc[symmetric] append_take_drop_id)
        show "(i @ take c (window ?s1)) @ window ?s' @ concat cs = T"
          unfolding win append_assoc e by (rule tt)
        show "(action ?s1 = LZMA_FINISH) \<longrightarrow> action ?s' = LZMA_FINISH" by simp
        show "feeding lib e0 T (engine ?s') (i @ take c (window ?s1))
                (written (stdout ?s') @ outbuf ?s') (action ?s1 = LZMA_FINISH)"
          using fd' by (simp only: outp) simp
      qed
    qed
    from contract ok have prog: "0 < c \<or> work e' < work (engine ?s1)" by simp
    have "todo work ?s' = (length (window ?s1) - c + length (unread (stdin ?s1)), work e')"
      unfolding todo_def win by (simp add: unread_def)
    moreover have "todo work ?s1 = (length (window ?s1) + length (unread (stdin ?s1)), work (engine ?s1))"
      by (simp add: todo_def)
    ultimately have "(todo work ?s', todo work ?s1) \<in> less_than <*lex*> less_than"
      using prog cw by auto
    with inv' show ?thesis by (simp only: st' td) simp
  qed
qed

lemma tems_pump_finishes:
  assumes tr: "transforms lib e0 work T R" and inv: "pump_inv lib e0 T ds st"
  shows "\<exists>n. exit_status (tems_run lib n st) = Some 0 \<and> written (stdout (tems_run lib n st)) = R
        \<and> stderr (tems_run lib n st) = ds"
proof -
  have wfr: "wf (inv_image (less_than <*lex*> less_than) (todo work))"
    by (intro wf_inv_image wf_lex_prod wf_less_than)
  show ?thesis
    using inv
  proof (induct st rule: wf_induct_rule[OF wfr])
    case (1 st)
    from tems_step_pump[OF tr 1(2)] show ?case
    proof
      assume "exit_status (tems_step lib st) = Some 0 \<and> written (stdout (tems_step lib st)) = R
              \<and> stderr (tems_step lib st) = ds"
      then show ?thesis by (intro exI[of _ "Suc 0"]) (simp add: tems_run_def)
    next
      assume a: "pump_inv lib e0 T ds (tems_step lib st)
            \<and> (todo work (tems_step lib st), todo work st) \<in> less_than <*lex*> less_than"
      then have "(tems_step lib st, st) \<in> inv_image (less_than <*lex*> less_than) (todo work)"
        by (simp add: inv_image_def)
      from 1(1)[OF this] a obtain n where
        "exit_status (tems_run lib n (tems_step lib st)) = Some 0
         \<and> written (stdout (tems_run lib n (tems_step lib st))) = R
         \<and> stderr (tems_run lib n (tems_step lib st)) = ds" by blast
      then show ?thesis by (intro exI[of _ "Suc n"]) (simp add: tems_run_def funpow_swap1)
    qed
  qed
qed

lemma pump_inv_start:
  "pump_inv lib e0 (concat cs) ds (start e0 c ds (stdin_of (map Bytes cs)) (stdout_with None))"
  unfolding pump_inv_def
proof (intro conjI)
  let ?s = "start e0 c ds (stdin_of (map Bytes cs)) (stdout_with None)"
  show "\<exists>cs' i fin. pending (stdin ?s) = map Bytes cs' \<and> (feof (stdin ?s) \<longrightarrow> concat cs' = [])
           \<and> i @ window ?s @ concat cs' = concat cs \<and> (fin \<longrightarrow> action ?s = LZMA_FINISH)
           \<and> feeding lib e0 (concat cs) (engine ?s) i (written (stdout ?s) @ outbuf ?s) fin"
    using feeding_start[of lib e0 "concat cs"]
    by (intro exI[of _ cs] exI[of _ "[]"] exI[of _ False])
       (simp add: start_def stdin_of_def stdout_with_def window_def)
qed (simp_all add: start_def stdin_of_def stdout_with_def running_def out_ok_def CHUNK_def)

lemma tems_main_transforms:
  assumes pa: "parse_args argv default_config = Inr cfg"
    and ini: "tems_init lib cfg = (LZMA_OK, e0, ds)"
    and tr: "transforms lib e0 work (concat cs) R"
  shows "\<exists>n. exit_status (tems_main lib argv (stdin_of (map Bytes cs)) (stdout_with None) n) = Some 0
           \<and> written (stdout (tems_main lib argv (stdin_of (map Bytes cs)) (stdout_with None) n)) = R"
proof -
  from tems_pump_finishes[OF tr pump_inv_start[of lib e0 cs ds "direction cfg"]] obtain n where
    "exit_status (tems_run lib n (start e0 (direction cfg) ds (stdin_of (map Bytes cs)) (stdout_with None))) = Some 0"
    "written (stdout (tems_run lib n (start e0 (direction cfg) ds (stdin_of (map Bytes cs)) (stdout_with None)))) = R"
    by blast
  then show ?thesis
    using pa ini by (intro exI[of _ n]) (simp add: tems_main_def tems_start_def proc.truncate_def)
qed

subsection \<open>The reference codec keeps the contract\<close>

lemma toy_lzma_code [simp]: "lzma_code toy_lzma = toy_code"
  by (simp add: toy_lzma_def)

lemma toy_call_enc_start:
  "within w (Suc m) (toy_code (Enc False) a w (Suc m))
     = (Enc True, min (length w) m, MAGIC # map (\<lambda>b. b + 1) (take m w),
        if a = LZMA_FINISH \<and> length w \<le> m then LZMA_STREAM_END else LZMA_OK)"
  by (auto simp: within_def toy_body_def Let_def min_def)

lemma toy_call_enc:
  "within w n (toy_code (Enc True) a w n)
     = (Enc True, min (length w) n, map (\<lambda>b. b + 1) (take n w),
        if a = LZMA_FINISH \<and> length w \<le> n then LZMA_STREAM_END else LZMA_OK)"
  by (auto simp: within_def toy_body_def Let_def min_def)

lemma toy_call_dec_start:
  "within (MAGIC # w) n (toy_code (Dec False) a (MAGIC # w) n)
     = (Dec True, Suc (min (length w) n), map (\<lambda>b. b - 1) (take n w),
        if a = LZMA_FINISH \<and> length w \<le> n then LZMA_STREAM_END else LZMA_OK)"
  by (auto simp: within_def toy_body_def Let_def min_def)

lemma toy_call_dec_none:
  "within [] n (toy_code (Dec False) a [] n)
     = (Dec False, 0, [], if a = LZMA_FINISH then LZMA_BUF_ERROR else LZMA_OK)"
  by (simp add: within_def)

lemma toy_call_dec_bad:
  "x \<noteq> MAGIC \<Longrightarrow> within (x # w) n (toy_code (Dec False) a (x # w) n) = (Dec False, 0, [], LZMA_FORMAT_ERROR)"
  by (simp add: within_def)

lemma toy_call_dec:
  "within w n (toy_code (Dec True) a w n)
     = (Dec True, min (length w) n, map (\<lambda>b. b - 1) (take n w),
        if a = LZMA_FINISH \<and> length w \<le> n then LZMA_STREAM_END else LZMA_OK)"
  by (auto simp: within_def toy_body_def Let_def min_def)

lemma take_min_length: "take (min (length w) n) w = take n w"
  by (simp add: min_def)

lemma toy_enc_feeding:
  "feeding toy_lzma (Enc False) T e i out fin \<Longrightarrow>
     (e = Enc False \<and> i = [] \<and> out = []) \<or> (e = Enc True \<and> out = MAGIC # map (\<lambda>b. b + 1) i)"
proof (induction rule: feeding.induct)
  case feeding_start
  then show ?case by simp
next
  case (feeding_call e i out fin n w t a e' c p)
  from feeding_call.IH show ?case
  proof
    assume s: "e = Enc False \<and> i = [] \<and> out = []"
    from feeding_call.hyps(2) obtain m where n: "n = Suc m" by (cases n) auto
    from feeding_call.hyps(7) s n show ?thesis
      by (auto simp: toy_call_enc_start take_min_length simp del: toy_code.simps split: if_splits)
  next
    assume s: "e = Enc True \<and> out = MAGIC # map (\<lambda>b. b + 1) i"
    from feeding_call.hyps(7) s show ?thesis
      by (auto simp: toy_call_enc take_min_length simp del: toy_code.simps split: if_splits)
  qed
qed

lemma toy_enc_transforms: "transforms toy_lzma (Enc False) toy_work T (toy_container T)"
  unfolding transforms_def
proof (intro allI impI, elim conjE)
  fix e i out fin a w t n e' c p r
  assume fd: "feeding toy_lzma (Enc False) T e i out fin" and n0: "0 < n" and tt: "i @ w @ t = T"
    and ne: "w \<noteq> [] \<or> a = LZMA_FINISH"
    and fin: "a = LZMA_FINISH \<longrightarrow> t = []"
    and call: "within w n (lzma_code toy_lzma e a w n) = (e', c, p, r)"
  from toy_enc_feeding[OF fd]
  show "(r = LZMA_OK \<or> r = LZMA_STREAM_END) \<and> (r = LZMA_STREAM_END \<longrightarrow> out @ p = toy_container T)
        \<and> (r = LZMA_OK \<longrightarrow> 0 < c \<or> toy_work e' < toy_work e)"
  proof
    assume s: "e = Enc False \<and> i = [] \<and> out = []"
    from n0 obtain m where n: "n = Suc m" by (cases n) auto
    from call s n tt fin show ?thesis
      by (auto simp: toy_call_enc_start toy_container_def toy_work_def simp del: toy_code.simps split: if_splits)
  next
    assume s: "e = Enc True \<and> out = MAGIC # map (\<lambda>b. b + 1) i"
    from call s tt fin n0 ne show ?thesis
      by (auto simp: toy_call_enc toy_container_def toy_work_def simp del: toy_code.simps split: if_splits)
  qed
qed

lemma toy_dec_feeding:
  "feeding toy_lzma (Dec False) T e i out fin \<Longrightarrow>
     (e = Dec False \<and> i = [] \<and> out = []) \<or> (e = Dec True \<and> (\<exists>j. i = MAGIC # j \<and> out = map (\<lambda>b. b - 1) j))"
proof (induction rule: feeding.induct)
  case feeding_start
  then show ?case by simp
next
  case (feeding_call e i out fin n w t a e' c p)
  from feeding_call.IH show ?case
  proof
    assume s: "e = Dec False \<and> i = [] \<and> out = []"
    show ?thesis
    proof (cases w)
      case Nil
      with feeding_call.hyps(7) s show ?thesis by (simp add: toy_call_dec_none del: toy_code.simps split: if_splits)
    next
      case (Cons x w')
      show ?thesis
      proof (cases "x = MAGIC")
        case False
        with feeding_call.hyps(7) s Cons show ?thesis by (simp add: toy_call_dec_bad del: toy_code.simps)
      next
        case True
        with feeding_call.hyps(7) s Cons show ?thesis
          by (auto simp: toy_call_dec_start take_min_length simp del: toy_code.simps split: if_splits)
      qed
    qed
  next
    assume s: "e = Dec True \<and> (\<exists>j. i = MAGIC # j \<and> out = map (\<lambda>b. b - 1) j)"
    from feeding_call.hyps(7) s show ?thesis
      by (auto simp: toy_call_dec take_min_length simp del: toy_code.simps split: if_splits)
  qed
qed

lemma unshift_shift: "map (\<lambda>b. b - 1) (map (\<lambda>b. b + 1) (bs :: byte list)) = bs"
  by (simp add: comp_def)

lemma toy_dec_transforms: "transforms toy_lzma (Dec False) toy_work (toy_container B) B"
  unfolding transforms_def
proof (intro allI impI, elim conjE)
  fix e i out fin a w t n e' c p r
  assume fd: "feeding toy_lzma (Dec False) (toy_container B) e i out fin" and n0: "0 < n"
    and tt: "i @ w @ t = toy_container B"
    and ne: "w \<noteq> [] \<or> a = LZMA_FINISH"
    and fin: "a = LZMA_FINISH \<longrightarrow> t = []"
    and call: "within w n (lzma_code toy_lzma e a w n) = (e', c, p, r)"
  from toy_dec_feeding[OF fd]
  show "(r = LZMA_OK \<or> r = LZMA_STREAM_END) \<and> (r = LZMA_STREAM_END \<longrightarrow> out @ p = B)
        \<and> (r = LZMA_OK \<longrightarrow> 0 < c \<or> toy_work e' < toy_work e)"
  proof
    assume s: "e = Dec False \<and> i = [] \<and> out = []"
    show ?thesis
    proof (cases w)
      case Nil
      with tt s fin have "a \<noteq> LZMA_FINISH" by (auto simp: toy_container_def)
      with ne Nil show ?thesis by simp
    next
      case (Cons x w')
      with tt s have x: "x = MAGIC" and w': "w' @ t = map (\<lambda>b. b + 1) B" by (simp_all add: toy_container_def)
      have "p = B" if "a = LZMA_FINISH" "length w' \<le> n" "p = map (\<lambda>b. b - 1) (take n w')"
      proof -
        from that(1) fin w' have "w' = map (\<lambda>b. b + 1) B" by simp
        with that(2,3) show ?thesis by (simp add: comp_def)
      qed
      with call s Cons x show ?thesis
        by (auto simp: toy_call_dec_start simp del: toy_code.simps split: if_splits)
    qed
  next
    assume s: "e = Dec True \<and> (\<exists>j. i = MAGIC # j \<and> out = map (\<lambda>b. b - 1) j)"
    then obtain j where e: "e = Dec True" and i: "i = MAGIC # j" and o: "out = map (\<lambda>b. b - 1) j" by blast
    from tt i have jw: "j @ w @ t = map (\<lambda>b. b + 1) B" by (simp add: toy_container_def)
    have "out @ p = B" if "a = LZMA_FINISH" "length w \<le> n" "p = map (\<lambda>b. b - 1) (take n w)"
    proof -
      from that(1) fin jw have "j @ w = map (\<lambda>b. b + 1) B" by simp
      then have "map (\<lambda>b. b - 1) (j @ w) = B" by (simp add: comp_def)
      with that(2,3) o show ?thesis by simp
    qed
    with call e n0 ne show ?thesis
      by (auto simp: toy_call_dec toy_work_def simp del: toy_code.simps split: if_splits)
  qed
qed

subsection \<open>The reference codec behind the rule for calls without progress\<close>

lemma toy_within: "within w n (toy_code e a w n) = toy_code e a w n"
proof (cases e)
  case (Enc b)
  then show ?thesis
    by (cases b) (auto simp: within_def toy_body_def Let_def min_def)
next
  case (Dec b)
  then show ?thesis
    by (cases b; cases w) (auto simp: within_def toy_body_def Let_def min_def)
qed

lemma toy_progress:
  assumes "0 < n" "w \<noteq> [] \<or> a = LZMA_FINISH" "toy_code e a w n = (e', c, p, LZMA_OK)"
  shows "0 < c \<or> p \<noteq> []"
proof (cases e)
  case (Enc b)
  with assms show ?thesis
    by (cases b) (auto simp: toy_body_def Let_def min_def split: if_splits)
next
  case (Dec b)
  with assms show ?thesis
    by (cases b; cases w) (auto simp: toy_body_def Let_def min_def split: if_splits)
qed

lemma strict_call:
  assumes "0 < n" "w \<noteq> [] \<or> a = LZMA_FINISH"
  shows "within w n (lzma_code strict_lzma s a w n)
     = (case toy_code (fst s) a w n of (e', c, p, r) \<Rightarrow> ((e', False), c, p, r))"
proof -
  obtain e' c p r where t: "toy_code (fst s) a w n = (e', c, p, r)" by (rule prod_cases4)
  from toy_within[of w n "fst s" a] t have b: "min c (length w) = c" "take n p = p"
    by (simp_all add: within_def)
  have "\<not> (r = LZMA_OK \<and> c = 0 \<and> p = [])"
    using toy_progress[OF assms, of "fst s" e' c p] t by auto
  with t b show ?thesis
    by (simp add: strict_lzma_def strict_code_def within_def)
qed

lemma strict_feeding:
  "feeding strict_lzma (e0, False) T s i out fin \<Longrightarrow>
     \<not> snd s \<and> feeding toy_lzma e0 T (fst s) i out fin"
proof (induction rule: feeding.induct)
  case feeding_start
  show ?case by (simp add: feeding.feeding_start)
next
  case (feeding_call s i out fin n w t a s' c p)
  obtain e' c' p' r where tc: "toy_code (fst s) a w n = (e', c', p', r)" by (rule prod_cases4)
  with strict_call[OF feeding_call.hyps(2,4), of s] feeding_call.hyps(7)
  have eq: "s' = (e', False)" "c' = c" "p' = p" "r = LZMA_OK" by simp_all
  from tc eq toy_within[of w n "fst s" a]
  have tcall: "within w n (lzma_code toy_lzma (fst s) a w n) = (e', c, p, LZMA_OK)"
    by simp
  from feeding_call.IH have f: "feeding toy_lzma e0 T (fst s) i out fin" by simp
  from feeding.feeding_call[OF f feeding_call.hyps(2,3,4,5,6) tcall] eq
  show ?case by simp
qed

lemma strict_transforms:
  assumes tr: "transforms toy_lzma e0 work T R"
  shows "transforms strict_lzma (e0, False) (\<lambda>s. work (fst s)) T R"
  unfolding transforms_def
proof (intro allI impI, elim conjE)
  fix s i out fin a w t n s' c p r
  assume fd: "feeding strict_lzma (e0, False) T s i out fin" and n0: "0 < n" and tt: "i @ w @ t = T"
    and ne: "w \<noteq> [] \<or> a = LZMA_FINISH"
    and fin: "a = LZMA_FINISH \<longrightarrow> t = []" and ff: "fin \<longrightarrow> a = LZMA_FINISH"
    and call: "within w n (lzma_code strict_lzma s a w n) = (s', c, p, r)"
  obtain e' c' p' r' where tc: "toy_code (fst s) a w n = (e', c', p', r')" by (rule prod_cases4)
  with strict_call[OF n0 ne, of s] call
  have eq: "s' = (e', False)" "c' = c" "p' = p" "r' = r" by simp_all
  from tc eq toy_within[of w n "fst s" a]
  have tcall: "within w n (lzma_code toy_lzma (fst s) a w n) = (e', c, p, r)"
    by simp
  from strict_feeding[OF fd] have fd': "feeding toy_lzma e0 T (fst s) i out fin" by simp
  from tr fd' n0 tt ne fin ff tcall
  have "(r = LZMA_OK \<or> r = LZMA_STREAM_END) \<and> (r = LZMA_STREAM_END \<longrightarrow> out @ p = R)
        \<and> (r = LZMA_OK \<longrightarrow> 0 < c \<or> work e' < work (fst s))"
    unfolding transforms_def by blast
  with eq show "(r = LZMA_OK \<or> r = LZMA_STREAM_END) \<and> (r = LZMA_STREAM_END \<longrightarrow> out @ p = R)
        \<and> (r = LZMA_OK \<longrightarrow> 0 < c \<or> work (fst s') < work (fst s))"
    by simp
qed

lemma strict_stalls:
  "lzma_code strict_lzma (Enc True, False) LZMA_RUN [] n = ((Enc True, True), 0, [], LZMA_OK)"
  "lzma_code strict_lzma (Enc True, True) LZMA_RUN [] n = ((Enc True, True), 0, [], LZMA_BUF_ERROR)"
  by (simp_all add: strict_lzma_def strict_code_def toy_body_def)

section \<open>The claims\<close>

text \<open>
  C8. The command line of temsxz: \<^verbatim>\<open>-9 -e -c\<close> gives level 9, extreme on and the compress
  direction; of several level flags the last one sets the level (\<^verbatim>\<open>-5 -3\<close> gives 3);
  an argument that is no option, met by the left-to-right scan before any of the
  printing options \<^verbatim>\<open>-h\<close>, \<^verbatim>\<open>--help\<close>, \<^verbatim>\<open>-v\<close>, \<^verbatim>\<open>--version\<close>, ends the process with
  status 1 and the message for an unknown option on the error stream, nothing read or
  written; and without \<^verbatim>\<open>-c\<close> and \<^verbatim>\<open>-d\<close> the direction is decompress.
\<close>

theorem cli_scenarios:
  "parse_args [''-9'', ''-e'', ''-c''] default_config = Inr \<lparr>compress = 1, level = 9, extreme = 1\<rparr>
   \<and> direction \<lparr>compress = 1, level = 9, extreme = 1\<rparr> = 1
   \<and> parse_args [''-5'', ''-3''] default_config = Inr \<lparr>compress = - 1, level = 3, extreme = 0\<rparr>
   \<and> (is_level_arg a \<and> (\<forall>b \<in> set bs. \<not> is_level_arg b) \<and> parse_args (pre @ a # bs) cfg = Inr cfg'
        \<longrightarrow> level cfg' = level_of a)
   \<and> (\<not> recognised u \<and> (\<forall>b \<in> set opts. recognised b \<and> \<not> informational b)
        \<longrightarrow> tems_main lib (opts @ u # rest) i out n
            = failed_start 1 [Unknown_option u, Use_h_for_help] i out)
   \<and> (''-c'' \<notin> set argv \<and> ''-d'' \<notin> set argv \<and> parse_args argv default_config = Inr cfg''
        \<longrightarrow> direction cfg'' = 0)"
proof -
  have 1: "parse_args [''-9'', ''-e'', ''-c''] default_config = Inr \<lparr>compress = 1, level = 9, extreme = 1\<rparr>"
    by (simp add: is_level_arg_def cchar_def level_of_def default_config_def)
  have 2: "direction \<lparr>compress = 1, level = 9, extreme = 1\<rparr> = 1"
    by (simp add: direction_def)
  have 3: "parse_args [''-5'', ''-3''] default_config = Inr \<lparr>compress = - 1, level = 3, extreme = 0\<rparr>"
    by (simp add: is_level_arg_def cchar_def level_of_def default_config_def)
  have 4: "is_level_arg a \<and> (\<forall>b \<in> set bs. \<not> is_level_arg b) \<and> parse_args (pre @ a # bs) cfg = Inr cfg'
        \<longrightarrow> level cfg' = level_of a"
    using parse_args_last_level[of a bs pre cfg cfg'] by blast
  have 5: "\<not> recognised u \<and> (\<forall>b \<in> set opts. recognised b \<and> \<not> informational b)
        \<longrightarrow> tems_main lib (opts @ u # rest) i out n
            = failed_start 1 [Unknown_option u, Use_h_for_help] i out"
    using parse_args_unknown[of u opts rest default_config] by (simp add: tems_main_def)
  have 6: "''-c'' \<notin> set argv \<and> ''-d'' \<notin> set argv \<and> parse_args argv default_config = Inr cfg''
        \<longrightarrow> direction cfg'' = 0"
    using parse_args_keeps_compress[of argv default_config cfg'']
    by (auto simp: direction_def default_config_def)
  from 1 2 3 4 5 6 show ?thesis by blast
qed


theorem cli_scenarios_witness:
  "is_level_arg ''-3'' \<and> \<not> is_level_arg ''-c''
   \<and> parse_args ([''-5''] @ ''-3'' # [''-c'']) default_config = Inr \<lparr>compress = 1, level = 3, extreme = 0\<rparr>
   \<and> level \<lparr>compress = 1, level = 3, extreme = 0\<rparr> = level_of ''-3''
   \<and> \<not> recognised ''-x'' \<and> recognised ''-9'' \<and> \<not> informational ''-9''
   \<and> tems_main toy_lzma ([''-9''] @ ''-x'' # [''-c'']) (stdin_of []) (stdout_with None) 0
       = failed_start 1 [Unknown_option ''-x'', Use_h_for_help] (stdin_of []) (stdout_with None)
   \<and> ''-c'' \<notin> set [''-9'', ''-e''] \<and> ''-d'' \<notin> set [''-9'', ''-e'']
   \<and> parse_args [''-9'', ''-e''] default_config = Inr \<lparr>compress = - 1, level = 9, extreme = 1\<rparr>
   \<and> direction \<lparr>compress = - 1, level = 9, extreme = 1\<rparr> = 0"
  using cli_scenarios[of "''-3''" "[''-c'']" "[''-5'']" default_config
      "\<lparr>compress = 1, level = 3, extreme = 0\<rparr>" "''-x''" "[''-9'']" toy_lzma "[''-c'']"
      "stdin_of []" "stdout_with None" 0 "[''-9'', ''-e'']" "\<lparr>compress = - 1, level = 9, extreme = 1\<rparr>"]
  by (simp add: is_level_arg_def cchar_def level_of_def default_config_def recognised_def
      informational_def direction_def)

text \<open>
  C9. A level is set only by an argument that is a dash, one digit and the end of the
  string, so the level computed from it lies between 0 and 9: for every argument
  vector the range check of the argument loop never fails (its message is never
  printed), and the level of a configuration the loop returns lies between 0 and 9.
\<close>

theorem level_check_unreachable:
  "(case parse_args argv default_config of
      Inl (c, ds) \<Rightarrow> Level_out_of_range \<notin> set ds
    | Inr cfg \<Rightarrow> 0 \<le> level cfg \<and> level cfg \<le> 9)
   \<and> (is_level_arg a \<longrightarrow> 0 \<le> level_of a \<and> level_of a \<le> 9)
   \<and> (CHR 0x00 \<notin> set a \<longrightarrow>
        (is_level_arg a \<longleftrightarrow>
           (\<exists>d. a = [CHR ''-'', d] \<and> (48::nat) \<le> of_char d \<and> (of_char d :: nat) \<le> 57)))"
  using parse_args_level[of default_config argv] is_level_arg_range[of a] is_level_arg_shape[of a]
  by (simp add: default_config_def)

theorem level_check_unreachable_witness:
  "parse_args [''-7'', ''-c''] default_config = Inr \<lparr>compress = 1, level = 7, extreme = 0\<rparr>
   \<and> CHR 0x00 \<notin> set ''-7'' \<and> is_level_arg ''-7'' \<and> level_of ''-7'' = 7"
  using level_check_unreachable[of "[''-7'', ''-c'']" "''-7''"]
  by (simp add: is_level_arg_def cchar_def level_of_def default_config_def)

text \<open>
  C7, as the code has it. In decompress_xz.c, embedded/temsxz.c and temsxz.c, in every
  state of every run, the read position is at most the fill length and the fill length
  at most the capacity \<open>CHUNK\<close>, and a turn of the loop takes from the input stream or
  puts new bytes into the input buffer only when the read position equals the fill
  length, that is when every byte read before has been consumed by the engine. In
  decompress_zstd.c a turn reads only then as well, the fill length is at most \<open>CHUNK\<close>
  in every state, and the read position is at most the fill length as long as the loop
  runs and after every turn that got past its read, also when that turn ends the
  process; the turn that leaves the loop at the read is left out.
\<close>

theorem refill_only_when_consumed:
  "(let s = xz_run xlib n1 (start e1 c1 d1 i1 o1)
    in cursors_ok s \<and> reads_only_when_consumed (xz_step xlib) s)
   \<and> (let s = emb_run elib n3 (start e3 c3 d3 i3 o3)
      in cursors_ok s \<and> reads_only_when_consumed (emb_step elib) s)
   \<and> (let s = tems_run tlib n4 (start e4 c4 d4 i4 o4)
      in cursors_ok s \<and> reads_only_when_consumed (tems_step tlib) s)
   \<and> (let s = zstd_run zlib n2 (start e2 c2 d2 i2 o2)
      in reads_only_when_consumed (zstd_step zlib) s
         \<and> length (inbuf s) \<le> CHUNK
         \<and> (running s \<longrightarrow> cursors_ok s)
         \<and> (running s \<and> running (zstd_fill s) \<longrightarrow> cursors_ok (zstd_step zlib s)))"
proof -
  have x: "cursors_ok (xz_run xlib n1 (start e1 c1 d1 i1 o1))"
    by (rule xz_run_cursors[OF cursors_ok_start])
  have e: "cursors_ok (emb_run elib n3 (start e3 c3 d3 i3 o3))"
    by (rule emb_run_cursors[OF cursors_ok_start])
  have t: "cursors_ok (tems_run tlib n4 (start e4 c4 d4 i4 o4))"
    by (rule tems_run_cursors[OF cursors_ok_start])
  have z: "running (zstd_run zlib n2 (start e2 c2 d2 i2 o2))
      \<longrightarrow> cursors_ok (zstd_run zlib n2 (start e2 c2 d2 i2 o2))"
    by (rule zstd_run_cursors) (simp add: cursors_ok_start)
  have zl: "length (inbuf (zstd_run zlib n2 (start e2 c2 d2 i2 o2))) \<le> CHUNK"
    by (rule zstd_run_fits) (simp add: start_def)
  have zp: "running (zstd_run zlib n2 (start e2 c2 d2 i2 o2))
      \<and> running (zstd_fill (zstd_run zlib n2 (start e2 c2 d2 i2 o2)))
      \<longrightarrow> cursors_ok (zstd_step zlib (zstd_run zlib n2 (start e2 c2 d2 i2 o2)))"
    using zstd_step_past_read[OF z] by blast
  show ?thesis
    unfolding Let_def
    using x e t z zl zp xz_reads_only_when_consumed[OF x, of xlib]
      emb_reads_only_when_consumed[OF e, of elib] tems_reads_only_when_consumed[OF t, of tlib]
      zstd_reads_only_when_consumed[OF z, of zlib]
    by blast
qed

theorem refill_only_when_consumed_witness:
  "inbuf (xz_step toy_lzma (xz_run toy_lzma (Suc 0) (start (Dec False) 0 [] (stdin_of [Bytes [MAGIC, 0x42]]) (stdout_with None)))) \<noteq> inbuf (xz_run toy_lzma (Suc 0) (start (Dec False) 0 [] (stdin_of [Bytes [MAGIC, 0x42]]) (stdout_with None)))
   \<and> stdin (emb_step zt_xz (emb_run zt_xz 0 (start False 0 [] (stdin_of [Bytes [65, 66]]) (stdout_with None)))) \<noteq> stdin (emb_run zt_xz 0 (start False 0 [] (stdin_of [Bytes [65, 66]]) (stdout_with None)))
   \<and> stdin (tems_step toy_lzma (tems_run toy_lzma 0 (start (Dec False) 0 [] (stdin_of [Bytes [MAGIC, 0x42]]) (stdout_with None)))) \<noteq> stdin (tems_run toy_lzma 0 (start (Dec False) 0 [] (stdin_of [Bytes [MAGIC, 0x42]]) (stdout_with None)))
   \<and> inbuf (zstd_step zt_zstd (zstd_run zt_zstd (Suc 0) (start () 0 [] (stdin_of [Bytes [65, 66]]) (stdout_with None)))) \<noteq> inbuf (zstd_run zt_zstd (Suc 0) (start () 0 [] (stdin_of [Bytes [65, 66]]) (stdout_with None)))
   \<and> running (zstd_run zt_zstd (Suc 0) (start () 0 [] (stdin_of [Bytes [65, 66]]) (stdout_with None)))
   \<and> running (zstd_run zt_zstd 0 (start () 0 [] (stdin_of [Bytes [65, 0, 66, 0]]) (stdout_with None))) \<and> running (zstd_fill (zstd_run zt_zstd 0 (start () 0 [] (stdin_of [Bytes [65, 0, 66, 0]]) (stdout_with None))))
   \<and> exit_status (zstd_step zt_zstd (zstd_run zt_zstd 0 (start () 0 [] (stdin_of [Bytes [65, 0, 66, 0]]) (stdout_with None)))) = Some 0
   \<and> in_pos (xz_run toy_lzma (Suc 0) (start (Dec False) 0 [] (stdin_of [Bytes [MAGIC, 0x42]]) (stdout_with None))) = 2 \<and> length (inbuf (zstd_step zt_zstd (zstd_run zt_zstd 0 (start () 0 [] (stdin_of [Bytes [65, 0, 66, 0]]) (stdout_with None))))) = 4
   \<and> in_pos (xz_run toy_lzma (Suc 0) (start (Dec False) 0 [] (stdin_of [Bytes [MAGIC, 0x42]]) (stdout_with None))) = length (inbuf (xz_run toy_lzma (Suc 0) (start (Dec False) 0 [] (stdin_of [Bytes [MAGIC, 0x42]]) (stdout_with None)))) \<and> cursors_ok (xz_run toy_lzma (Suc 0) (start (Dec False) 0 [] (stdin_of [Bytes [MAGIC, 0x42]]) (stdout_with None)))
   \<and> in_pos (emb_run zt_xz 0 (start False 0 [] (stdin_of [Bytes [65, 66]]) (stdout_with None))) = length (inbuf (emb_run zt_xz 0 (start False 0 [] (stdin_of [Bytes [65, 66]]) (stdout_with None)))) \<and> cursors_ok (emb_run zt_xz 0 (start False 0 [] (stdin_of [Bytes [65, 66]]) (stdout_with None)))
   \<and> in_pos (tems_run toy_lzma 0 (start (Dec False) 0 [] (stdin_of [Bytes [MAGIC, 0x42]]) (stdout_with None))) = length (inbuf (tems_run toy_lzma 0 (start (Dec False) 0 [] (stdin_of [Bytes [MAGIC, 0x42]]) (stdout_with None)))) \<and> cursors_ok (tems_run toy_lzma 0 (start (Dec False) 0 [] (stdin_of [Bytes [MAGIC, 0x42]]) (stdout_with None)))
   \<and> in_pos (zstd_run zt_zstd (Suc 0) (start () 0 [] (stdin_of [Bytes [65, 66]]) (stdout_with None))) = length (inbuf (zstd_run zt_zstd (Suc 0) (start () 0 [] (stdin_of [Bytes [65, 66]]) (stdout_with None)))) \<and> cursors_ok (zstd_run zt_zstd (Suc 0) (start () 0 [] (stdin_of [Bytes [65, 66]]) (stdout_with None)))
   \<and> cursors_ok (zstd_step zt_zstd (zstd_run zt_zstd 0 (start () 0 [] (stdin_of [Bytes [65, 0, 66, 0]]) (stdout_with None))))"
proof -
  have v: "inbuf (xz_step toy_lzma (xz_run toy_lzma (Suc 0) (start (Dec False) 0 [] (stdin_of [Bytes [MAGIC, 0x42]]) (stdout_with None)))) \<noteq> inbuf (xz_run toy_lzma (Suc 0) (start (Dec False) 0 [] (stdin_of [Bytes [MAGIC, 0x42]]) (stdout_with None)))
   \<and> stdin (emb_step zt_xz (emb_run zt_xz 0 (start False 0 [] (stdin_of [Bytes [65, 66]]) (stdout_with None)))) \<noteq> stdin (emb_run zt_xz 0 (start False 0 [] (stdin_of [Bytes [65, 66]]) (stdout_with None)))
   \<and> stdin (tems_step toy_lzma (tems_run toy_lzma 0 (start (Dec False) 0 [] (stdin_of [Bytes [MAGIC, 0x42]]) (stdout_with None)))) \<noteq> stdin (tems_run toy_lzma 0 (start (Dec False) 0 [] (stdin_of [Bytes [MAGIC, 0x42]]) (stdout_with None)))
   \<and> inbuf (zstd_step zt_zstd (zstd_run zt_zstd (Suc 0) (start () 0 [] (stdin_of [Bytes [65, 66]]) (stdout_with None)))) \<noteq> inbuf (zstd_run zt_zstd (Suc 0) (start () 0 [] (stdin_of [Bytes [65, 66]]) (stdout_with None)))
   \<and> running (zstd_run zt_zstd (Suc 0) (start () 0 [] (stdin_of [Bytes [65, 66]]) (stdout_with None)))
   \<and> running (zstd_run zt_zstd 0 (start () 0 [] (stdin_of [Bytes [65, 0, 66, 0]]) (stdout_with None))) \<and> running (zstd_fill (zstd_run zt_zstd 0 (start () 0 [] (stdin_of [Bytes [65, 0, 66, 0]]) (stdout_with None))))
   \<and> exit_status (zstd_step zt_zstd (zstd_run zt_zstd 0 (start () 0 [] (stdin_of [Bytes [65, 0, 66, 0]]) (stdout_with None)))) = Some 0
   \<and> in_pos (xz_run toy_lzma (Suc 0) (start (Dec False) 0 [] (stdin_of [Bytes [MAGIC, 0x42]]) (stdout_with None))) = 2 \<and> length (inbuf (zstd_step zt_zstd (zstd_run zt_zstd 0 (start () 0 [] (stdin_of [Bytes [65, 0, 66, 0]]) (stdout_with None))))) = 4"
    by (simp add: run_eval)
  note t = refill_only_when_consumed[of toy_lzma "Suc 0" "Dec False" 0 "[]" "stdin_of [Bytes [MAGIC, 0x42]]" "stdout_with None"
      zt_xz 0 False 0 "[]" "stdin_of [Bytes [65, 66]]" "stdout_with None"
      toy_lzma 0 "Dec False" 0 "[]" "stdin_of [Bytes [MAGIC, 0x42]]" "stdout_with None"
      zt_zstd "Suc 0" "()" 0 "[]" "stdin_of [Bytes [65, 66]]" "stdout_with None",
      unfolded Let_def reads_only_when_consumed_def]
  note u = refill_only_when_consumed[of toy_lzma "Suc 0" "Dec False" 0 "[]" "stdin_of [Bytes [MAGIC, 0x42]]" "stdout_with None"
      zt_xz 0 False 0 "[]" "stdin_of [Bytes [65, 66]]" "stdout_with None"
      toy_lzma 0 "Dec False" 0 "[]" "stdin_of [Bytes [MAGIC, 0x42]]" "stdout_with None"
      zt_zstd 0 "()" 0 "[]" "stdin_of [Bytes [65, 0, 66, 0]]" "stdout_with None",
      unfolded Let_def reads_only_when_consumed_def]
  from v t have x: "in_pos (xz_run toy_lzma (Suc 0) (start (Dec False) 0 [] (stdin_of [Bytes [MAGIC, 0x42]]) (stdout_with None))) = length (inbuf (xz_run toy_lzma (Suc 0) (start (Dec False) 0 [] (stdin_of [Bytes [MAGIC, 0x42]]) (stdout_with None)))) \<and> cursors_ok (xz_run toy_lzma (Suc 0) (start (Dec False) 0 [] (stdin_of [Bytes [MAGIC, 0x42]]) (stdout_with None)))"
    by blast
  from v t have e: "in_pos (emb_run zt_xz 0 (start False 0 [] (stdin_of [Bytes [65, 66]]) (stdout_with None))) = length (inbuf (emb_run zt_xz 0 (start False 0 [] (stdin_of [Bytes [65, 66]]) (stdout_with None)))) \<and> cursors_ok (emb_run zt_xz 0 (start False 0 [] (stdin_of [Bytes [65, 66]]) (stdout_with None)))"
    by blast
  from v t have s: "in_pos (tems_run toy_lzma 0 (start (Dec False) 0 [] (stdin_of [Bytes [MAGIC, 0x42]]) (stdout_with None))) = length (inbuf (tems_run toy_lzma 0 (start (Dec False) 0 [] (stdin_of [Bytes [MAGIC, 0x42]]) (stdout_with None)))) \<and> cursors_ok (tems_run toy_lzma 0 (start (Dec False) 0 [] (stdin_of [Bytes [MAGIC, 0x42]]) (stdout_with None)))"
    by blast
  from v t have z: "in_pos (zstd_run zt_zstd (Suc 0) (start () 0 [] (stdin_of [Bytes [65, 66]]) (stdout_with None))) = length (inbuf (zstd_run zt_zstd (Suc 0) (start () 0 [] (stdin_of [Bytes [65, 66]]) (stdout_with None)))) \<and> cursors_ok (zstd_run zt_zstd (Suc 0) (start () 0 [] (stdin_of [Bytes [65, 66]]) (stdout_with None)))"
    by blast
  from v u have c: "cursors_ok (zstd_step zt_zstd (zstd_run zt_zstd 0 (start () 0 [] (stdin_of [Bytes [65, 0, 66, 0]]) (stdout_with None))))"
    by blast
  from v x e s z c show ?thesis by blast
qed

text \<open>
  C7, as the claim states it, fails for decompress_zstd.c: on the input 65 66 the
  reference decoder consumes both bytes at the first turn; the read of the second turn
  gets 0 bytes, the fill length becomes 0 and the loop is left before the read position
  is reset, so the process returns 0 in a state where the read position, 2, is above
  the fill length.
\<close>

theorem stale_position_counterexample:
  "exit_status (zstd_run zt_zstd (Suc (Suc 0)) (start () 0 [] (stdin_of [Bytes [65, 66]]) (stdout_with None))) = Some 0
   \<and> in_pos (zstd_run zt_zstd (Suc (Suc 0)) (start () 0 [] (stdin_of [Bytes [65, 66]]) (stdout_with None))) = 2
   \<and> length (inbuf (zstd_run zt_zstd (Suc (Suc 0)) (start () 0 [] (stdin_of [Bytes [65, 66]]) (stdout_with None)))) = 0
   \<and> \<not> cursors_ok (zstd_run zt_zstd (Suc (Suc 0)) (start () 0 [] (stdin_of [Bytes [65, 66]]) (stdout_with None)))"
  by (simp add: run_eval cursors_ok_def)

text \<open>
  C6. In decompress_xz.c and temsxz.c, for every engine: at a turn of the loop that reads
  from the input stream and gets 0 bytes, the engine is called with the finish action,
  and every call the engine receives at any later turn is made with the finish action
  too. The calls are observed through \<open>recording\<close>, which logs the action of every call
  of \<^verbatim>\<open>lzma_code\<close> and changes nothing else: without the log, the run with the recording
  library is the run with the library itself.
\<close>

theorem finish_after_empty_read:
  "(running st \<and> avail_in st = 0 \<and> fst (fread CHUNK (stdin st)) = []
      \<longrightarrow> (\<not> ferror (snd (fread CHUNK (stdin st)))
             \<longrightarrow> actions_given (xz_step (recording xlib) st) = actions_given st @ [LZMA_FINISH])
          \<and> (\<forall>m. \<exists>k\<le>m. actions_given (xz_run (recording xlib) m st)
                          = actions_given st @ replicate k LZMA_FINISH))
   \<and> (running st' \<and> avail_in st' = 0 \<and> \<not> feof (stdin st') \<and> fst (fread CHUNK (stdin st')) = []
      \<longrightarrow> (\<not> ferror (snd (fread CHUNK (stdin st')))
             \<longrightarrow> actions_given (tems_step (recording tlib) st') = actions_given st' @ [LZMA_FINISH])
          \<and> (\<forall>m. \<exists>k\<le>m. actions_given (tems_run (recording tlib) m st')
                          = actions_given st' @ replicate k LZMA_FINISH))
   \<and> forget (xz_run (recording xlib) n xs) = xz_run xlib n (forget xs)
   \<and> forget (tems_run (recording tlib) n ts) = tems_run tlib n (forget ts)"
proof (intro conjI impI allI)
  assume a: "running st \<and> avail_in st = 0 \<and> fst (fread CHUNK (stdin st)) = []"
  then have f: "finishing (xz_fill st)" by (simp add: xz_empty_read_finishing)
  show "\<exists>k\<le>m. actions_given (xz_run (recording xlib) m st) = actions_given st @ replicate k LZMA_FINISH" for m
    by (rule xz_run_log_finishing[OF f])
  assume "\<not> ferror (snd (fread CHUNK (stdin st)))"
  with a have "running (xz_fill st) \<and> action (xz_fill st) = LZMA_FINISH"
    by (simp add: xz_fill_def Let_def case_prod_beta running_def)
  with a show "actions_given (xz_step (recording xlib) st) = actions_given st @ [LZMA_FINISH]"
    by (simp add: xz_step_log)
next
  assume a: "running st' \<and> avail_in st' = 0 \<and> \<not> feof (stdin st') \<and> fst (fread CHUNK (stdin st')) = []"
  then have f: "finishing (tems_fill st')" by (simp add: tems_empty_read_finishing)
  show "\<exists>k\<le>m. actions_given (tems_run (recording tlib) m st') = actions_given st' @ replicate k LZMA_FINISH" for m
    by (rule tems_run_log_finishing[OF f])
  assume e: "\<not> ferror (snd (fread CHUNK (stdin st')))"
  with a have r: "running (tems_fill st')"
    by (simp add: tems_fill_def Let_def case_prod_beta running_def)
  with f have "action (tems_fill st') = LZMA_FINISH" by (simp add: finishing_def)
  with a r show "actions_given (tems_step (recording tlib) st') = actions_given st' @ [LZMA_FINISH]"
    by (simp add: tems_step_log)
next
  show "forget (xz_run (recording xlib) n xs) = xz_run xlib n (forget xs)"
    by (rule forget_xz_run)
  show "forget (tems_run (recording tlib) n ts) = tems_run tlib n (forget ts)"
    by (rule forget_tems_run)
qed

theorem finish_after_empty_read_witness:
  "running (xz_run (recording hungry_lzma) (Suc 0) (start ((), []) 0 [] (stdin_of [Bytes [1]]) (stdout_with None))) \<and> avail_in (xz_run (recording hungry_lzma) (Suc 0) (start ((), []) 0 [] (stdin_of [Bytes [1]]) (stdout_with None))) = 0 \<and> fst (fread CHUNK (stdin (xz_run (recording hungry_lzma) (Suc 0) (start ((), []) 0 [] (stdin_of [Bytes [1]]) (stdout_with None))))) = []
   \<and> \<not> ferror (snd (fread CHUNK (stdin (xz_run (recording hungry_lzma) (Suc 0) (start ((), []) 0 [] (stdin_of [Bytes [1]]) (stdout_with None))))))
   \<and> actions_given (xz_run (recording hungry_lzma) (Suc 0) (start ((), []) 0 [] (stdin_of [Bytes [1]]) (stdout_with None))) = [LZMA_RUN]
   \<and> actions_given (xz_step (recording hungry_lzma) (xz_run (recording hungry_lzma) (Suc 0) (start ((), []) 0 [] (stdin_of [Bytes [1]]) (stdout_with None)))) = actions_given (xz_run (recording hungry_lzma) (Suc 0) (start ((), []) 0 [] (stdin_of [Bytes [1]]) (stdout_with None))) @ [LZMA_FINISH]
   \<and> (\<exists>k\<le>Suc (Suc 0). actions_given (xz_run (recording hungry_lzma) (Suc (Suc 0)) (xz_run (recording hungry_lzma) (Suc 0) (start ((), []) 0 [] (stdin_of [Bytes [1]]) (stdout_with None))))
          = actions_given (xz_run (recording hungry_lzma) (Suc 0) (start ((), []) 0 [] (stdin_of [Bytes [1]]) (stdout_with None))) @ replicate k LZMA_FINISH)
   \<and> actions_given (xz_run (recording hungry_lzma) (Suc (Suc 0)) (xz_run (recording hungry_lzma) (Suc 0) (start ((), []) 0 [] (stdin_of [Bytes [1]]) (stdout_with None)))) = [LZMA_RUN, LZMA_FINISH, LZMA_FINISH]
   \<and> running (start ((), []) 1 [] (stdin_of []) (stdout_with None)) \<and> avail_in (start ((), []) 1 [] (stdin_of []) (stdout_with None)) = 0 \<and> \<not> feof (stdin (start ((), []) 1 [] (stdin_of []) (stdout_with None))) \<and> fst (fread CHUNK (stdin (start ((), []) 1 [] (stdin_of []) (stdout_with None)))) = []
   \<and> \<not> ferror (snd (fread CHUNK (stdin (start ((), []) 1 [] (stdin_of []) (stdout_with None)))))
   \<and> actions_given (tems_step (recording hungry_lzma) (start ((), []) 1 [] (stdin_of []) (stdout_with None))) = actions_given (start ((), []) 1 [] (stdin_of []) (stdout_with None)) @ [LZMA_FINISH]
   \<and> (\<exists>k\<le>Suc (Suc 0). actions_given (tems_run (recording hungry_lzma) (Suc (Suc 0)) (start ((), []) 1 [] (stdin_of []) (stdout_with None)))
          = actions_given (start ((), []) 1 [] (stdin_of []) (stdout_with None)) @ replicate k LZMA_FINISH)
   \<and> actions_given (tems_run (recording hungry_lzma) (Suc (Suc 0)) (start ((), []) 1 [] (stdin_of []) (stdout_with None))) = [LZMA_FINISH, LZMA_FINISH]"
proof -
  have v: "running (xz_run (recording hungry_lzma) (Suc 0) (start ((), []) 0 [] (stdin_of [Bytes [1]]) (stdout_with None))) \<and> avail_in (xz_run (recording hungry_lzma) (Suc 0) (start ((), []) 0 [] (stdin_of [Bytes [1]]) (stdout_with None))) = 0 \<and> fst (fread CHUNK (stdin (xz_run (recording hungry_lzma) (Suc 0) (start ((), []) 0 [] (stdin_of [Bytes [1]]) (stdout_with None))))) = []
   \<and> \<not> ferror (snd (fread CHUNK (stdin (xz_run (recording hungry_lzma) (Suc 0) (start ((), []) 0 [] (stdin_of [Bytes [1]]) (stdout_with None))))))
   \<and> actions_given (xz_run (recording hungry_lzma) (Suc 0) (start ((), []) 0 [] (stdin_of [Bytes [1]]) (stdout_with None))) = [LZMA_RUN]
   \<and> actions_given (xz_run (recording hungry_lzma) (Suc (Suc 0)) (xz_run (recording hungry_lzma) (Suc 0) (start ((), []) 0 [] (stdin_of [Bytes [1]]) (stdout_with None)))) = [LZMA_RUN, LZMA_FINISH, LZMA_FINISH]
   \<and> running (start ((), []) 1 [] (stdin_of []) (stdout_with None)) \<and> avail_in (start ((), []) 1 [] (stdin_of []) (stdout_with None)) = 0 \<and> \<not> feof (stdin (start ((), []) 1 [] (stdin_of []) (stdout_with None))) \<and> fst (fread CHUNK (stdin (start ((), []) 1 [] (stdin_of []) (stdout_with None)))) = []
   \<and> \<not> ferror (snd (fread CHUNK (stdin (start ((), []) 1 [] (stdin_of []) (stdout_with None)))))
   \<and> actions_given (tems_run (recording hungry_lzma) (Suc (Suc 0)) (start ((), []) 1 [] (stdin_of []) (stdout_with None))) = [LZMA_FINISH, LZMA_FINISH]"
    by (simp add: run_eval recording_def hungry_lzma_def actions_given_def)
  note t = finish_after_empty_read[of "(xz_run (recording hungry_lzma) (Suc 0) (start ((), []) 0 [] (stdin_of [Bytes [1]]) (stdout_with None)))" hungry_lzma "(start ((), []) 1 [] (stdin_of []) (stdout_with None))" hungry_lzma]
  from v t have x1: "actions_given (xz_step (recording hungry_lzma) (xz_run (recording hungry_lzma) (Suc 0) (start ((), []) 0 [] (stdin_of [Bytes [1]]) (stdout_with None)))) = actions_given (xz_run (recording hungry_lzma) (Suc 0) (start ((), []) 0 [] (stdin_of [Bytes [1]]) (stdout_with None))) @ [LZMA_FINISH]"
    by blast
  from v t have "\<forall>m. \<exists>k\<le>m. actions_given (xz_run (recording hungry_lzma) m (xz_run (recording hungry_lzma) (Suc 0) (start ((), []) 0 [] (stdin_of [Bytes [1]]) (stdout_with None))))
      = actions_given (xz_run (recording hungry_lzma) (Suc 0) (start ((), []) 0 [] (stdin_of [Bytes [1]]) (stdout_with None))) @ replicate k LZMA_FINISH"
    by blast
  then have x2: "\<exists>k\<le>Suc (Suc 0). actions_given (xz_run (recording hungry_lzma) (Suc (Suc 0)) (xz_run (recording hungry_lzma) (Suc 0) (start ((), []) 0 [] (stdin_of [Bytes [1]]) (stdout_with None))))
      = actions_given (xz_run (recording hungry_lzma) (Suc 0) (start ((), []) 0 [] (stdin_of [Bytes [1]]) (stdout_with None))) @ replicate k LZMA_FINISH"
    by (rule spec)
  from v t have t1: "actions_given (tems_step (recording hungry_lzma) (start ((), []) 1 [] (stdin_of []) (stdout_with None))) = actions_given (start ((), []) 1 [] (stdin_of []) (stdout_with None)) @ [LZMA_FINISH]"
    by blast
  from v t have "\<forall>m. \<exists>k\<le>m. actions_given (tems_run (recording hungry_lzma) m (start ((), []) 1 [] (stdin_of []) (stdout_with None)))
      = actions_given (start ((), []) 1 [] (stdin_of []) (stdout_with None)) @ replicate k LZMA_FINISH"
    by blast
  then have t2: "\<exists>k\<le>Suc (Suc 0). actions_given (tems_run (recording hungry_lzma) (Suc (Suc 0)) (start ((), []) 1 [] (stdin_of []) (stdout_with None)))
      = actions_given (start ((), []) 1 [] (stdin_of []) (stdout_with None)) @ replicate k LZMA_FINISH"
    by (rule spec)
  from v x1 x2 t1 t2 show ?thesis by simp
qed

text \<open>
  C10. decompress_zstd.c: at the turn where the engine returns 0 (a frame is complete)
  and the bytes it produced are written without error, the process returns 0 with no
  message; no later turn changes anything, so the deliveries still pending on the input
  stream are never read and the bytes of the input buffer after the frame are never
  given to the engine.
\<close>

theorem zstd_stops_at_first_frame:
  "running st \<and> running (zstd_fill st)
   \<and> ZSTD_decompressStream lib (engine (zstd_fill st)) (window (zstd_fill st)) CHUNK = (e, c, p, ZSTD_hint 0)
   \<and> \<not> oerror (snd (fwrite (take CHUNK p) (stdout st)))
   \<longrightarrow> exit_status (zstd_step lib st) = Some 0
     \<and> stderr (zstd_step lib st) = stderr st
     \<and> written (stdout (zstd_step lib st)) = written (stdout st) @ take CHUNK p
     \<and> stdin (zstd_step lib st) = stdin (zstd_fill st)
     \<and> window (zstd_step lib st) = drop (min c (length (window (zstd_fill st)))) (window (zstd_fill st))
     \<and> (\<forall>m. zstd_run lib m (zstd_step lib st) = zstd_step lib st)"
  using zstd_frame_end[of st lib e c p] by blast

theorem zstd_stops_at_first_frame_witness:
  "running (start () 0 [] (stdin_of [Bytes [65, 0, 66, 0]]) (stdout_with None))
   \<and> running (zstd_fill (start () 0 [] (stdin_of [Bytes [65, 0, 66, 0]]) (stdout_with None)))
   \<and> ZSTD_decompressStream zt_zstd (engine (zstd_fill (start () 0 [] (stdin_of [Bytes [65, 0, 66, 0]]) (stdout_with None))))
        (window (zstd_fill (start () 0 [] (stdin_of [Bytes [65, 0, 66, 0]]) (stdout_with None)))) CHUNK
       = ((), 2, [65], ZSTD_hint 0)
   \<and> \<not> oerror (snd (fwrite (take CHUNK [65]) (stdout (start () 0 [] (stdin_of [Bytes [65, 0, 66, 0]]) (stdout_with None)))))
   \<and> exit_status (zstd_step zt_zstd (start () 0 [] (stdin_of [Bytes [65, 0, 66, 0]]) (stdout_with None))) = Some 0
   \<and> written (stdout (zstd_step zt_zstd (start () 0 [] (stdin_of [Bytes [65, 0, 66, 0]]) (stdout_with None)))) = [65]
   \<and> window (zstd_step zt_zstd (start () 0 [] (stdin_of [Bytes [65, 0, 66, 0]]) (stdout_with None))) = [66, 0]
   \<and> zstd_run zt_zstd (Suc (Suc 0)) (zstd_step zt_zstd (start () 0 [] (stdin_of [Bytes [65, 0, 66, 0]]) (stdout_with None)))
       = zstd_step zt_zstd (start () 0 [] (stdin_of [Bytes [65, 0, 66, 0]]) (stdout_with None))"
  using zstd_stops_at_first_frame[of "start () 0 [] (stdin_of [Bytes [65, 0, 66, 0]]) (stdout_with None)"
      zt_zstd "()" 2 "[65]"]
  by (simp add: run_eval)




text \<open>
  C1. A container cut before its last byte must end the decoder with a status other
  than 0. The code does otherwise: on the frame 65 66 0 of the reference decoder,
  decompress_zstd.c returns 0 having written 65 66, and on the same frame without its
  last byte it also returns 0, with the same output and no message (its loop breaks at
  the end of the input and \<^verbatim>\<open>last_ret\<close> is never looked at); decompress_gzip.c returns 0
  on the whole frame and on the cut frame never returns, whatever the number of turns
  (\<open>Z_BUF_ERROR\<close> is not among the values it stops on).
\<close>

theorem truncated_frame_returns_0:
  "zstd_main zt_zstd (stdin_of [Bytes [65, 66, 0]]) (stdout_with None) (Suc 0)
     = \<lparr>stdin = \<lparr>pending = [], feof = True, ferror = False\<rparr>,
        stdout = \<lparr>written = [65, 66], room = None, oerror = False\<rparr>, stderr = [], exit_status = Some 0\<rparr>
   \<and> zstd_main zt_zstd (stdin_of [Bytes [65, 66]]) (stdout_with None) (Suc (Suc 0))
     = \<lparr>stdin = \<lparr>pending = [], feof = True, ferror = False\<rparr>,
        stdout = \<lparr>written = [65, 66], room = None, oerror = False\<rparr>, stderr = [], exit_status = Some 0\<rparr>
   \<and> exit_status (gz_main zt_zlib (stdin_of [Bytes [65, 66, 0]]) (stdout_with None) (Suc 0)) = Some 0
   \<and> (\<forall>n. exit_status (gz_main zt_zlib (stdin_of [Bytes [65, 66]]) (stdout_with None) n) = None)"
proof -
  have 1: "zstd_main zt_zstd (stdin_of [Bytes [65, 66, 0]]) (stdout_with None) (Suc 0)
     = \<lparr>stdin = \<lparr>pending = [], feof = True, ferror = False\<rparr>,
        stdout = \<lparr>written = [65, 66], room = None, oerror = False\<rparr>, stderr = [], exit_status = Some 0\<rparr>"
    by (simp add: zstd_main_def run_eval proc.truncate_def)
  have 2: "zstd_main zt_zstd (stdin_of [Bytes [65, 66]]) (stdout_with None) (Suc (Suc 0))
     = \<lparr>stdin = \<lparr>pending = [], feof = True, ferror = False\<rparr>,
        stdout = \<lparr>written = [65, 66], room = None, oerror = False\<rparr>, stderr = [], exit_status = Some 0\<rparr>"
    by (simp add: zstd_main_def run_eval proc.truncate_def)
  have 3: "exit_status (gz_main zt_zlib (stdin_of [Bytes [65, 66, 0]]) (stdout_with None) (Suc 0)) = Some 0"
    by (simp add: gz_main_def run_eval proc.truncate_def)
  have 4: "exit_status (gz_main zt_zlib (stdin_of [Bytes [65, 66]]) (stdout_with None) n) = None" for n
    using gz_truncated_never_returns[of n]
    by (simp add: gz_main_def zt_zlib_def Z_OK_def proc.truncate_def)
  from 1 2 3 4 show ?thesis by blast
qed

text \<open>
  C2. Decoding an empty input must end with a status other than 0. decompress_zstd.c
  returns 0 on the empty input with every library whose context could be created: the
  first read gets 0 bytes and the loop breaks before the engine is called.
  embedded/temsxz.c returns 0 as well with the reference engine, which like xz-embedded
  answers \<open>XZ_OK\<close> to a first call without progress. decompress_xz.c and temsxz.c in
  decompress mode return 1 with the reference engine, and temsxz.c in compress mode
  returns 0 with the container of the empty payload.
\<close>

theorem zstd_empty_input_returns_0:
  "zstd_main (lib\<lparr>ZSTD_createDCtx := Some ctx\<rparr>) (stdin_of []) out (Suc n)
     = \<lparr>stdin = \<lparr>pending = [], feof = True, ferror = False\<rparr>, stdout = out, stderr = [],
        exit_status = Some 0\<rparr>
   \<and> emb_main zt_xz (stdin_of []) out (Suc 0)
     = \<lparr>stdin = \<lparr>pending = [], feof = True, ferror = False\<rparr>, stdout = out, stderr = [],
        exit_status = Some 0\<rparr>
   \<and> xz_main toy_lzma (stdin_of []) (stdout_with None) (Suc 0)
     = \<lparr>stdin = \<lparr>pending = [], feof = True, ferror = False\<rparr>, stdout = stdout_with None,
        stderr = [Lzma_error LZMA_BUF_ERROR], exit_status = Some 1\<rparr>
   \<and> tems_main toy_lzma [''-d''] (stdin_of []) (stdout_with None) (Suc 0)
     = \<lparr>stdin = \<lparr>pending = [], feof = True, ferror = False\<rparr>, stdout = stdout_with None,
        stderr = [Decompression, Mode_error False], exit_status = Some 1\<rparr>
   \<and> tems_main toy_lzma [''-c''] (stdin_of []) (stdout_with None) (Suc 0)
     = \<lparr>stdin = \<lparr>pending = [], feof = True, ferror = False\<rparr>,
        stdout = \<lparr>written = toy_container [], room = None, oerror = False\<rparr>,
        stderr = [Compression_level 6 False], exit_status = Some 0\<rparr>"
proof -
  let ?s = "start ctx 0 [] (stdin_of []) out"
  have fr: "fread CHUNK (stdin ?s) = ([], \<lparr>pending = [], feof = True, ferror = False\<rparr>)"
    by (simp add: fread_def start_def stdin_of_def CHUNK_def)
  have "zstd_step lib' ?s = return_with 0 [] (?s\<lparr>stdin := \<lparr>pending = [], feof = True, ferror = False\<rparr>, inbuf := []\<rparr>)" for lib' :: "'a zstd_lib"
    by (rule zstd_eof_returns_0[OF _ _ fr]) (simp_all add: start_def running_def)
  then have s1: "zstd_step lib' ?s = ?s\<lparr>stdin := \<lparr>pending = [], feof = True, ferror = False\<rparr>, exit_status := Some 0\<rparr>"
    for lib' :: "'a zstd_lib"
    by (simp add: return_with_def start_def)
  have "\<not> running (zstd_step lib' ?s)" for lib' :: "'a zstd_lib" by (simp add: s1 running_def)
  then have "zstd_run lib' n (zstd_step lib' ?s) = zstd_step lib' ?s" for lib' :: "'a zstd_lib"
    by (rule zstd_run_stopped)
  then have "zstd_run lib' (Suc n) ?s = zstd_step lib' ?s" for lib' :: "'a zstd_lib"
    by (simp add: zstd_run_def funpow_swap1)
  then have r: "zstd_run lib' (Suc n) ?s = ?s\<lparr>stdin := \<lparr>pending = [], feof = True, ferror = False\<rparr>, exit_status := Some 0\<rparr>"
    for lib' :: "'a zstd_lib"
    by (simp only: s1)
  have 1: "zstd_main (lib\<lparr>ZSTD_createDCtx := Some ctx\<rparr>) (stdin_of []) out (Suc n)
     = \<lparr>stdin = \<lparr>pending = [], feof = True, ferror = False\<rparr>, stdout = out, stderr = [],
        exit_status = Some 0\<rparr>"
    unfolding zstd_main_def using r[of "lib\<lparr>ZSTD_createDCtx := Some ctx\<rparr>"]
    by (simp add: start_def proc.truncate_def)
  have 2: "emb_main zt_xz (stdin_of []) out (Suc 0)
     = \<lparr>stdin = \<lparr>pending = [], feof = True, ferror = False\<rparr>, stdout = out, stderr = [],
        exit_status = Some 0\<rparr>"
    by (simp add: emb_main_def run_eval proc.truncate_def)
  have 3: "xz_main toy_lzma (stdin_of []) (stdout_with None) (Suc 0)
     = \<lparr>stdin = \<lparr>pending = [], feof = True, ferror = False\<rparr>, stdout = stdout_with None,
        stderr = [Lzma_error LZMA_BUF_ERROR], exit_status = Some 1\<rparr>"
    by (simp add: xz_main_def run_eval proc.truncate_def)
  have 4: "tems_main toy_lzma [''-d''] (stdin_of []) (stdout_with None) (Suc 0)
     = \<lparr>stdin = \<lparr>pending = [], feof = True, ferror = False\<rparr>, stdout = stdout_with None,
        stderr = [Decompression, Mode_error False], exit_status = Some 1\<rparr>"
    by (simp add: tems_main_def tems_start_def tems_init_def direction_def default_config_def
        run_eval proc.truncate_def)
  have 5: "tems_main toy_lzma [''-c''] (stdin_of []) (stdout_with None) (Suc 0)
     = \<lparr>stdin = \<lparr>pending = [], feof = True, ferror = False\<rparr>,
        stdout = \<lparr>written = toy_container [], room = None, oerror = False\<rparr>,
        stderr = [Compression_level 6 False], exit_status = Some 0\<rparr>"
    by (simp add: tems_main_def tems_start_def tems_init_def direction_def default_config_def preset_def
        run_eval proc.truncate_def toy_container_def)
  from 1 2 3 4 5 show ?thesis by simp
qed

text \<open>
  C4. Two input streams that deliver the same bytes in pieces of different sizes give
  the same process after any number of turns of the loop: the same output stream, the
  same messages and the same exit status, for all five drivers and every engine. The
  drivers read with \<^verbatim>\<open>fread\<close>, which hands over the same bytes however they arrive.
\<close>

theorem chunking_does_not_matter:
  "concat cs1 = concat cs2 \<longrightarrow>
     outcome (tems_main tlib argv (stdin_of (map Bytes cs1)) out n)
       = outcome (tems_main tlib argv (stdin_of (map Bytes cs2)) out n)
   \<and> outcome (xz_main xlib (stdin_of (map Bytes cs1)) out n)
       = outcome (xz_main xlib (stdin_of (map Bytes cs2)) out n)
   \<and> outcome (gz_main glib (stdin_of (map Bytes cs1)) out n)
       = outcome (gz_main glib (stdin_of (map Bytes cs2)) out n)
   \<and> outcome (zstd_main zlib (stdin_of (map Bytes cs1)) out n)
       = outcome (zstd_main zlib (stdin_of (map Bytes cs2)) out n)
   \<and> outcome (emb_main elib (stdin_of (map Bytes cs1)) out n)
       = outcome (emb_main elib (stdin_of (map Bytes cs2)) out n)"
  using tems_main_same[of cs1 cs2 tlib argv out n] xz_main_same[of cs1 cs2 xlib out n]
    gz_main_same[of cs1 cs2 glib out n] zstd_main_same[of cs1 cs2 zlib out n]
    emb_main_same[of cs1 cs2 elib out n]
  by blast

theorem chunking_does_not_matter_witness:
  "concat [[MAGIC], [0x42], [0x43]] = concat [[MAGIC, 0x42, 0x43]]
   \<and> outcome (tems_main toy_lzma [''-d''] (stdin_of (map Bytes [[MAGIC], [0x42], [0x43]])) (stdout_with None) (Suc 0))
       = outcome (tems_main toy_lzma [''-d''] (stdin_of (map Bytes [[MAGIC, 0x42, 0x43]])) (stdout_with None) (Suc 0))
   \<and> outcome (tems_main toy_lzma [''-d''] (stdin_of (map Bytes [[MAGIC], [0x42], [0x43]])) (stdout_with None) (Suc 0))
       = (\<lparr>written = [0x41, 0x42], room = None, oerror = False\<rparr>, [Decompression], Some 0)
   \<and> outcome (xz_main toy_lzma (stdin_of (map Bytes [[MAGIC], [0x42], [0x43]])) (stdout_with None) (Suc (Suc 0)))
       = (\<lparr>written = [0x41, 0x42], room = None, oerror = False\<rparr>, [], Some 0)"
  using chunking_does_not_matter[of "[[MAGIC], [0x42], [0x43]]" "[[MAGIC, 0x42, 0x43]]"
      toy_lzma "[''-d'']" "stdout_with None" "Suc 0" toy_lzma zt_zlib zt_zstd zt_xz]
  by (simp add: outcome_def tems_main_def tems_start_def tems_init_def direction_def default_config_def
      xz_main_def run_eval proc.truncate_def)

text \<open>
  C5. The round trip of temsxz.c, for every payload and every way the two input streams
  are cut into pieces. The engine is liblzma's, outside the repository, so the theorem
  is about every library that keeps the contract \<open>transforms\<close> on the calls temsxz.c
  makes: its encoder, fed the payload, ends with some container \<open>X\<close>, and its decoder,
  fed \<open>X\<close>, ends with the payload. Then the compressing process returns 0 having
  written exactly \<open>X\<close>, and the decompressing process, given \<open>X\<close>, returns 0 having
  written exactly the payload: the driver hands every input byte to the engine once and
  in order, never calls it on an empty window before the end of the input, asks it to
  finish at the end of the input and only there, writes every byte it produces once and
  in order, and its loop ends. The reference codec behind liblzma's rule for calls
  without progress keeps the contract.
\<close>

theorem round_trip:
  "parse_args argv default_config = Inr cfg \<and> direction cfg \<noteq> 0
   \<and> lzma_easy_encoder lib (preset cfg) = (LZMA_OK, enc0)
   \<and> lzma_stream_decoder lib = (LZMA_OK, dec0)
   \<and> transforms lib enc0 ework (concat cs) X
   \<and> transforms lib dec0 dwork X (concat cs)
   \<and> concat xs = X
   \<longrightarrow> (\<exists>n m.
         exit_status (tems_main lib argv (stdin_of (map Bytes cs)) (stdout_with None) n) = Some 0
       \<and> written (stdout (tems_main lib argv (stdin_of (map Bytes cs)) (stdout_with None) n)) = X
       \<and> exit_status (tems_main lib [''-d''] (stdin_of (map Bytes xs)) (stdout_with None) m) = Some 0
       \<and> written (stdout (tems_main lib [''-d''] (stdin_of (map Bytes xs)) (stdout_with None) m)) = concat cs)"
proof (intro impI, elim conjE)
  assume pa: "parse_args argv default_config = Inr cfg" and dir: "direction cfg \<noteq> 0"
    and ei: "lzma_easy_encoder lib (preset cfg) = (LZMA_OK, enc0)"
    and di: "lzma_stream_decoder lib = (LZMA_OK, dec0)"
    and et: "transforms lib enc0 ework (concat cs) X"
    and dt: "transforms lib dec0 dwork X (concat cs)"
    and xs: "concat xs = X"
  have ini_e: "tems_init lib cfg = (LZMA_OK, enc0, [Compression_level (level cfg) (extreme cfg \<noteq> 0)])"
    using dir ei by (simp add: tems_init_def)
  from tems_main_transforms[OF pa ini_e et] obtain n where
    n: "exit_status (tems_main lib argv (stdin_of (map Bytes cs)) (stdout_with None) n) = Some 0
        \<and> written (stdout (tems_main lib argv (stdin_of (map Bytes cs)) (stdout_with None) n)) = X"
    by blast
  have pd: "parse_args [''-d''] default_config = Inr (default_config\<lparr>compress := 0\<rparr>)"
    by simp
  have ini_d: "tems_init lib (default_config\<lparr>compress := 0\<rparr>) = (LZMA_OK, dec0, [Decompression])"
    using di by (simp add: tems_init_def direction_def)
  from dt xs have dt': "transforms lib dec0 dwork (concat xs) (concat cs)" by simp
  from tems_main_transforms[OF pd ini_d dt'] obtain m where
    m: "exit_status (tems_main lib [''-d''] (stdin_of (map Bytes xs)) (stdout_with None) m) = Some 0
        \<and> written (stdout (tems_main lib [''-d''] (stdin_of (map Bytes xs)) (stdout_with None) m)) = concat cs"
    by blast
  from n m show "\<exists>n m.
         exit_status (tems_main lib argv (stdin_of (map Bytes cs)) (stdout_with None) n) = Some 0
       \<and> written (stdout (tems_main lib argv (stdin_of (map Bytes cs)) (stdout_with None) n)) = X
       \<and> exit_status (tems_main lib [''-d''] (stdin_of (map Bytes xs)) (stdout_with None) m) = Some 0
       \<and> written (stdout (tems_main lib [''-d''] (stdin_of (map Bytes xs)) (stdout_with None) m)) = concat cs"
    by blast
qed

theorem round_trip_witness:
  "parse_args [''-c''] default_config = Inr \<lparr>compress = 1, level = 6, extreme = 0\<rparr>
   \<and> direction \<lparr>compress = 1, level = 6, extreme = 0\<rparr> \<noteq> 0
   \<and> lzma_easy_encoder strict_lzma (preset \<lparr>compress = 1, level = 6, extreme = 0\<rparr>) = (LZMA_OK, (Enc False, False))
   \<and> lzma_stream_decoder strict_lzma = (LZMA_OK, (Dec False, False))
   \<and> transforms strict_lzma (Enc False, False) (\<lambda>s. toy_work (fst s)) (concat [[0x41], [0x42]]) (toy_container [0x41, 0x42])
   \<and> transforms strict_lzma (Dec False, False) (\<lambda>s. toy_work (fst s)) (toy_container [0x41, 0x42]) (concat [[0x41], [0x42]])
   \<and> concat [[MAGIC], [0x42, 0x43]] = toy_container [0x41, 0x42]
   \<and> (\<exists>n m.
         exit_status (tems_main strict_lzma [''-c''] (stdin_of (map Bytes [[0x41], [0x42]])) (stdout_with None) n) = Some 0
       \<and> written (stdout (tems_main strict_lzma [''-c''] (stdin_of (map Bytes [[0x41], [0x42]])) (stdout_with None) n))
           = toy_container [0x41, 0x42]
       \<and> exit_status (tems_main strict_lzma [''-d''] (stdin_of (map Bytes [[MAGIC], [0x42, 0x43]])) (stdout_with None) m) = Some 0
       \<and> written (stdout (tems_main strict_lzma [''-d''] (stdin_of (map Bytes [[MAGIC], [0x42, 0x43]])) (stdout_with None) m))
           = concat [[0x41], [0x42]])
   \<and> exit_status (tems_main strict_lzma [''-c''] (stdin_of (map Bytes [[0x41], [0x42]])) (stdout_with None) (Suc 0)) = Some 0
   \<and> written (stdout (tems_main strict_lzma [''-c''] (stdin_of (map Bytes [[0x41], [0x42]])) (stdout_with None) (Suc 0)))
       = [MAGIC, 0x42, 0x43]
   \<and> exit_status (tems_main strict_lzma [''-d''] (stdin_of (map Bytes [[MAGIC], [0x42, 0x43]])) (stdout_with None) (Suc 0)) = Some 0
   \<and> written (stdout (tems_main strict_lzma [''-d''] (stdin_of (map Bytes [[MAGIC], [0x42, 0x43]])) (stdout_with None) (Suc 0)))
       = [0x41, 0x42]
   \<and> lzma_code strict_lzma (Enc True, False) LZMA_RUN [] CHUNK = ((Enc True, True), 0, [], LZMA_OK)
   \<and> lzma_code strict_lzma (Enc True, True) LZMA_RUN [] CHUNK = ((Enc True, True), 0, [], LZMA_BUF_ERROR)"
proof -
  have h: "parse_args [''-c''] default_config = Inr \<lparr>compress = 1, level = 6, extreme = 0\<rparr>
   \<and> direction \<lparr>compress = 1, level = 6, extreme = 0\<rparr> \<noteq> 0
   \<and> lzma_easy_encoder strict_lzma (preset \<lparr>compress = 1, level = 6, extreme = 0\<rparr>) = (LZMA_OK, (Enc False, False))
   \<and> lzma_stream_decoder strict_lzma = (LZMA_OK, (Dec False, False))
   \<and> concat [[MAGIC], [0x42, 0x43]] = toy_container [0x41, 0x42]"
    by (simp add: default_config_def direction_def strict_lzma_def toy_container_def)
  have e: "transforms strict_lzma (Enc False, False) (\<lambda>s. toy_work (fst s)) (concat [[0x41], [0x42]]) (toy_container [0x41, 0x42])"
    using strict_transforms[OF toy_enc_transforms[of "[0x41, 0x42]"]] by simp
  have d: "transforms strict_lzma (Dec False, False) (\<lambda>s. toy_work (fst s)) (toy_container [0x41, 0x42]) (concat [[0x41], [0x42]])"
    using strict_transforms[OF toy_dec_transforms[of "[0x41, 0x42]"]] by simp
  have v: "exit_status (tems_main strict_lzma [''-c''] (stdin_of (map Bytes [[0x41], [0x42]])) (stdout_with None) (Suc 0)) = Some 0
   \<and> written (stdout (tems_main strict_lzma [''-c''] (stdin_of (map Bytes [[0x41], [0x42]])) (stdout_with None) (Suc 0)))
       = [MAGIC, 0x42, 0x43]
   \<and> exit_status (tems_main strict_lzma [''-d''] (stdin_of (map Bytes [[MAGIC], [0x42, 0x43]])) (stdout_with None) (Suc 0)) = Some 0
   \<and> written (stdout (tems_main strict_lzma [''-d''] (stdin_of (map Bytes [[MAGIC], [0x42, 0x43]])) (stdout_with None) (Suc 0)))
       = [0x41, 0x42]"
    by (simp add: tems_main_def tems_start_def tems_init_def direction_def default_config_def preset_def
        run_eval strict_lzma_def strict_code_def proc.truncate_def)
  have s: "lzma_code strict_lzma (Enc True, False) LZMA_RUN [] CHUNK = ((Enc True, True), 0, [], LZMA_OK)
   \<and> lzma_code strict_lzma (Enc True, True) LZMA_RUN [] CHUNK = ((Enc True, True), 0, [], LZMA_BUF_ERROR)"
    by (simp add: strict_stalls)
  from round_trip[of "[''-c'']" "\<lparr>compress = 1, level = 6, extreme = 0\<rparr>" strict_lzma "(Enc False, False)"
      "(Dec False, False)" "(\<lambda>s. toy_work (fst s))" "[[0x41], [0x42]]" "toy_container [0x41, 0x42]" "(\<lambda>s. toy_work (fst s))" "[[MAGIC], [0x42, 0x43]]"] h e d
  have x: "(\<exists>n m.
         exit_status (tems_main strict_lzma [''-c''] (stdin_of (map Bytes [[0x41], [0x42]])) (stdout_with None) n) = Some 0
       \<and> written (stdout (tems_main strict_lzma [''-c''] (stdin_of (map Bytes [[0x41], [0x42]])) (stdout_with None) n))
           = toy_container [0x41, 0x42]
       \<and> exit_status (tems_main strict_lzma [''-d''] (stdin_of (map Bytes [[MAGIC], [0x42, 0x43]])) (stdout_with None) m) = Some 0
       \<and> written (stdout (tems_main strict_lzma [''-d''] (stdin_of (map Bytes [[MAGIC], [0x42, 0x43]])) (stdout_with None) m))
           = concat [[0x41], [0x42]])"
    by blast
  from h e d x v s show ?thesis by blast
qed

end
